theory Spec2Isabelle
  imports Main
begin

section \<open>Strings of the post model\<close>

text \<open>
  Titles, slugs and contents are JavaScript strings.  They are modelled as HOL strings,
  one \<open>char\<close> per code unit, read as the code points U+0000 to U+00FF (Latin-1).  Every
  operation below keeps a string inside this range, and \<open>length\<close> counts code units, as
  \<^verbatim>\<open>String.prototype.length\<close> and \<^verbatim>\<open>substring\<close> do.
\<close>

definition code :: "char \<Rightarrow> nat" where
  "code c = of_char c"

text \<open>The character class \<^verbatim>\<open>\s\<close> of a JavaScript regular expression, below U+0100:
  TAB, LF, VT, FF, CR, SPACE and NO-BREAK SPACE.  \<^verbatim>\<open>String.prototype.trim\<close> and the
  \<^verbatim>\<open>trim\<close> sanitizer of express-validator strip the same set.\<close>

definition isSpace :: "char \<Rightarrow> bool" where
  "isSpace c = ((9 \<le> code c \<and> code c \<le> 13) \<or> code c = 32 \<or> code c = 160)"

definition isDigit :: "char \<Rightarrow> bool" where
  "isDigit c = (48 \<le> code c \<and> code c \<le> 57)"

definition isLower :: "char \<Rightarrow> bool" where
  "isLower c = (97 \<le> code c \<and> code c \<le> 122)"

definition isUpper :: "char \<Rightarrow> bool" where
  "isUpper c = (65 \<le> code c \<and> code c \<le> 90)"

definition hyphen :: char where
  "hyphen = CHR ''-''"

text \<open>\<^verbatim>\<open>toLowerCase\<close> on one code unit: A-Z, and the Latin-1 capitals U+00C0 to U+00DE
  except the multiplication sign U+00D7, move up by 32; every other code unit below
  U+0100 is left alone.\<close>

definition lowerChar :: "char \<Rightarrow> char" where
  "lowerChar c =
     (if isUpper c \<or> (192 \<le> code c \<and> code c \<le> 222 \<and> code c \<noteq> 215)
      then char_of (code c + 32) else c)"

definition toLowerCase :: "string \<Rightarrow> string" where
  "toLowerCase s = map lowerChar s"

text \<open>\<^verbatim>\<open>s.trim()\<close>\<close>

definition trim :: "string \<Rightarrow> string" where
  "trim s = rev (dropWhile isSpace (rev (dropWhile isSpace s)))"

text \<open>\<^verbatim>\<open>s.replace(/[X]+/g, r)\<close> for a character class \<open>X\<close>: every maximal run of
  characters of the class is replaced by \<open>r\<close>.\<close>

function replaceRuns :: "(char \<Rightarrow> bool) \<Rightarrow> string \<Rightarrow> string \<Rightarrow> string" where
  "replaceRuns X r [] = []"
| "replaceRuns X r (c # cs) =
     (if X c then r @ replaceRuns X r (dropWhile X cs) else c # replaceRuns X r cs)"
  by pat_completeness auto
termination
  by (relation "measure (\<lambda>(X, r, s). length s)")
     (auto simp: le_imp_less_Suc length_dropWhile_le)

text \<open>\<^verbatim>\<open>s.split(/\s+/)\<close>: the pieces between the maximal runs of whitespace.  A run at
  the start or at the end of the string leaves an empty piece there, and the empty
  string splits into one empty piece.\<close>

function splitFrom :: "string \<Rightarrow> string \<Rightarrow> string list" where
  "splitFrom tok [] = [tok]"
| "splitFrom tok (c # cs) =
     (if isSpace c then tok # splitFrom [] (dropWhile isSpace cs)
      else splitFrom (tok @ [c]) cs)"
  by pat_completeness auto
termination
  by (relation "measure (\<lambda>(tok, s). length s)")
     (auto simp: le_imp_less_Suc length_dropWhile_le)

definition splitSpaces :: "string \<Rightarrow> string list" where
  "splitSpaces s = splitFrom [] s"

text \<open>The decimal digits of a counter, as a template literal prints a number.\<close>

definition digitChar :: "nat \<Rightarrow> char" where
  "digitChar d = char_of (48 + d)"

fun showNat :: "nat \<Rightarrow> string" where
  "showNat n = (if n < 10 then [digitChar n] else showNat (n div 10) @ [digitChar (n mod 10)])"

declare showNat.simps [simp del]

section \<open>Slug candidate of the save hook\<close>

text \<open>
  \<^verbatim>\<open>
  let baseSlug = this.title
    .toLowerCase()
    .replace(/[^a-zA-Z0-9\s]/g, '')
    .replace(/\s+/g, '-')
    .substring(0, 50);
  \<close>
\<close>

definition keptChar :: "char \<Rightarrow> bool" where
  "keptChar c = (isLower c \<or> isUpper c \<or> isDigit c \<or> isSpace c)"

definition baseSlug :: "string \<Rightarrow> string" where
  "baseSlug t = take 50 (replaceRuns isSpace [hyphen] (filter keptChar (toLowerCase t)))"

text \<open>The characters a slug is made of: \<^verbatim>\<open>[a-z0-9-]\<close>.\<close>

definition slugChar :: "char \<Rightarrow> bool" where
  "slugChar c = (isLower c \<or> isDigit c \<or> c = hyphen)"

text \<open>Adjacent occurrences of a character, used to say that a run of whitespace leaves
  one hyphen only.\<close>

fun doubled :: "char \<Rightarrow> string \<Rightarrow> bool" where
  "doubled h (a # b # cs) = ((a = h \<and> b = h) \<or> doubled h (b # cs))"
| "doubled h cs = False"

text \<open>A string that begins, or ends, with a given character.\<close>

definition startsWith :: "char \<Rightarrow> string \<Rightarrow> bool" where
  "startsWith h s = (case s of [] \<Rightarrow> False | c # cs \<Rightarrow> c = h)"

definition endsWith :: "char \<Rightarrow> string \<Rightarrow> bool" where
  "endsWith h s = startsWith h (rev s)"

section \<open>The front-end helpers\<close>

text \<open>
  \<^verbatim>\<open>
  export const generateSlug = (text) => {
    return text
      .toLowerCase()
      .trim()
      .replace(/[^\w\s-]/g, '') // Remove special characters
      .replace(/[\s_-]+/g, '-') // Replace spaces and underscores with hyphens
      .replace(/^-+|-+$/g, ''); // Remove leading/trailing hyphens
  };
  \<close>
\<close>

definition wordChar :: "char \<Rightarrow> bool" where
  "wordChar c = (isLower c \<or> isUpper c \<or> isDigit c \<or> c = CHR ''_'')"

definition generateSlug :: "string \<Rightarrow> string" where
  "generateSlug text =
     (let s1 = trim (toLowerCase text);
          s2 = filter (\<lambda>c. wordChar c \<or> isSpace c \<or> c = hyphen) s1;
          s3 = replaceRuns (\<lambda>c. isSpace c \<or> c = CHR ''_'' \<or> c = hyphen) [hyphen] s2
      in rev (dropWhile (\<lambda>c. c = hyphen) (rev (dropWhile (\<lambda>c. c = hyphen) s3))))"

text \<open>\<^verbatim>\<open>text.replace(/<[^>]*>/g, '')\<close>: a \<^verbatim>\<open><\<close> that has a \<^verbatim>\<open>>\<close> somewhere after it is
  removed together with everything up to the first such \<^verbatim>\<open>>\<close>.\<close>

function stripTags :: "string \<Rightarrow> string" where
  "stripTags [] = []"
| "stripTags (c # cs) =
     (if c = CHR ''<'' \<and> CHR ''>'' \<in> set cs
      then stripTags (tl (dropWhile (\<lambda>d. d \<noteq> CHR ''>'') cs))
      else c # stripTags cs)"
  by pat_completeness auto
termination
  by (relation "measure length")
     (auto simp: le_imp_less_Suc length_dropWhile_le le_trans [OF diff_le_self])

text \<open>\<^verbatim>\<open>Math.ceil(n / d)\<close> for a count \<open>n\<close> and a positive \<open>d\<close>.  Both are far below
  \<open>2\<^sup>5\<^sup>3\<close>, where the floating-point quotient rounds to the exact ceiling.\<close>

definition ceilDiv :: "nat \<Rightarrow> nat \<Rightarrow> nat" where
  "ceilDiv n d = (n + d - 1) div d"

text \<open>
  \<^verbatim>\<open>
  export const calculateReadingTime = (text, wordsPerMinute = 200) => {
    if (!text) return 0;
    const plainText = text.replace(/<[^>]*>/g, '');
    const wordCount = plainText.split(/\s+/).filter(word => word.length > 0).length;
    return Math.max(1, Math.ceil(wordCount / wordsPerMinute));
  };
  \<close>
  called with its default reading speed.
\<close>

definition wordCount :: "string \<Rightarrow> nat" where
  "wordCount text = length (filter (\<lambda>word. length word > 0) (splitSpaces (stripTags text)))"

definition calculateReadingTime :: "string \<Rightarrow> nat" where
  "calculateReadingTime text =
     (if text = [] then 0 else max 1 (ceilDiv (wordCount text) 200))"

section \<open>Posts and the collection\<close>

text \<open>
  An ObjectId is modelled by its 24-digit lower-case hexadecimal string (what
  \<^verbatim>\<open>toString()\<close> gives), a date by its milliseconds.  Of the schema's paths the record
  keeps those the properties below are about; \<open>slug\<close> and \<open>publishedAt\<close> have no
  default and may be absent.  The collection is the list of its documents in insertion
  order, which is the order in which \<^verbatim>\<open>findOne\<close> meets them.
\<close>

type_synonym oid = string

datatype status = Draft | Published | Archived

datatype role = Admin | Author

record like =
  l_user :: oid
  l_createdAt :: nat

record post =
  p_id :: oid
  title :: string
  slug :: "string option"
  content :: string
  author :: oid
  status :: status
  publishedAt :: "nat option"
  readingTime :: nat
  likes :: "like list"

type_synonym store = "post list"

record user =
  u_id :: oid
  u_role :: role

text \<open>A request body: a field that is \<open>None\<close> is absent from the JSON object.\<close>

record body =
  b_title :: "string option"
  b_slug :: "string option"
  b_content :: "string option"
  b_author :: "oid option"
  b_status :: "status option"
  b_publishedAt :: "nat option"
  b_readingTime :: "nat option"

datatype error = ValidationError | DuplicateKey

text \<open>The responses of the three routes: 201 and 200 with the document, the like
  counters, 400 \<^verbatim>\<open>Validation failed\<close>, 403, 404 and 500 \<^verbatim>\<open>Server error\<close>.\<close>

datatype response =
    Created post
  | Updated "post option"
  | LikeResult nat bool
  | ValidationFailed
  | Forbidden
  | NotFound
  | ServerError

text \<open>The schema declares \<^verbatim>\<open>slug: { unique: true, trim: true, lowercase: true }\<close> and
  \<^verbatim>\<open>title: { trim: true }\<close>.  Mongoose runs the setters on every value it casts for the
  path: on assignment, in a query filter and in an update.\<close>

definition slugSetter :: "string \<Rightarrow> string" where
  "slugSetter s = trim (toLowerCase s)"

definition findOneSlug :: "store \<Rightarrow> string \<Rightarrow> post option" where
  "findOneSlug st s = find (\<lambda>p. slug p = Some (slugSetter s)) st"

definition findById :: "store \<Rightarrow> string \<Rightarrow> post option" where
  "findById st i = find (\<lambda>p. p_id p = toLowerCase i) st"

section \<open>The save hook\<close>

text \<open>
  \<^verbatim>\<open>
  let slug = baseSlug;
  let counter = 1;
  while (true) {
    const existingPost = await this.constructor.findOne({ slug });
    if (!existingPost || existingPost._id.toString() === this._id.toString()) {
      break;
    }
    slug = `${baseSlug}-${counter}`;
    counter++;
  }
  \<close>
  with \<open>candidate\<close> for the loop's variable \<^verbatim>\<open>slug\<close>.  The loop has no bound of its own,
  so it is a partial function: \<open>None\<close> is the loop that never leaves.
\<close>

definition suffixed :: "string \<Rightarrow> nat \<Rightarrow> string" where
  "suffixed base counter = base @ [hyphen] @ showNat counter"

partial_function (option) uniqueSlug :: "store \<Rightarrow> oid \<Rightarrow> string \<Rightarrow> string \<Rightarrow> nat \<Rightarrow> string option" where
  "uniqueSlug st self base candidate counter =
     (case findOneSlug st candidate of
        None \<Rightarrow> Some candidate
      | Some existingPost \<Rightarrow>
          if p_id existingPost = self then Some candidate
          else uniqueSlug st self base (suffixed base counter) (counter + 1))"

declare uniqueSlug.simps [code]

text \<open>The condition under which the loop goes on: the candidate is the slug of a stored
  post (the first that \<^verbatim>\<open>findOne\<close> meets) other than the post being saved.\<close>

definition slugTaken :: "store \<Rightarrow> oid \<Rightarrow> string \<Rightarrow> bool" where
  "slugTaken st self candidate =
     (case findOneSlug st candidate of None \<Rightarrow> False | Some existingPost \<Rightarrow> p_id existingPost \<noteq> self)"

text \<open>\<^verbatim>\<open>!this.slug\<close> holds of an absent and of an empty slug.\<close>

definition noSlug :: "post \<Rightarrow> bool" where
  "noSlug p = (case slug p of None \<Rightarrow> True | Some s \<Rightarrow> s = [])"

text \<open>What \<^verbatim>\<open>isModified\<close> answers for the three paths the hook asks about.\<close>

record modified =
  titleModified :: bool
  statusModified :: bool
  contentModified :: bool

definition assignSlug :: "store \<Rightarrow> modified \<Rightarrow> bool \<Rightarrow> post \<Rightarrow> post option" where
  "assignSlug st m isNew this =
     (if (titleModified m \<and> noSlug this) \<or> (isNew \<and> noSlug this)
      then (case uniqueSlug st (p_id this) (baseSlug (title this)) (baseSlug (title this)) 1 of
              None \<Rightarrow> None
            | Some s \<Rightarrow> Some (this\<lparr>slug := Some (slugSetter s)\<rparr>))
      else Some this)"

definition setPublishedAt :: "modified \<Rightarrow> nat \<Rightarrow> post \<Rightarrow> post" where
  "setPublishedAt m now this =
     (if statusModified m \<and> status this = Published \<and> publishedAt this = None
      then this\<lparr>publishedAt := Some now\<rparr> else this)"

definition setReadingTime :: "modified \<Rightarrow> post \<Rightarrow> post" where
  "setReadingTime m this =
     (if contentModified m
      then this\<lparr>readingTime := ceilDiv (length (splitSpaces (content this))) 200\<rparr>
      else this)"

definition pre_save :: "store \<Rightarrow> modified \<Rightarrow> bool \<Rightarrow> nat \<Rightarrow> post \<Rightarrow> post option" where
  "pre_save st m isNew now this =
     (case assignSlug st m isNew this of
        None \<Rightarrow> None
      | Some p \<Rightarrow> Some (setReadingTime m (setPublishedAt m now p)))"

section \<open>The model's operations\<close>

text \<open>The schema's validators for the modelled paths: \<open>title\<close> is required and has at
  most 200 characters, \<open>content\<close> is required; a required string must not be empty.\<close>

definition validTitle :: "string \<Rightarrow> bool" where
  "validTitle t = (t \<noteq> [] \<and> length t \<le> 200)"

definition validContent :: "string \<Rightarrow> bool" where
  "validContent c = (c \<noteq> [])"

text \<open>The unique indexes of the collection, on \<open>_id\<close> and on \<open>slug\<close>: an insert is
  refused with a duplicate-key error when a stored document has the same key.\<close>

definition insertOne :: "store \<Rightarrow> post \<Rightarrow> error + post \<times> store" where
  "insertOne st doc =
     (if list_ex (\<lambda>p. p_id p = p_id doc \<or> slug p = slug doc) st then Inl DuplicateKey
      else Inr (doc, st @ [doc]))"

text \<open>\<^verbatim>\<open>updateOne({ _id: doc._id }, ...)\<close>: the first document with that id is replaced.\<close>

fun updateOne :: "store \<Rightarrow> post \<Rightarrow> store" where
  "updateOne [] doc = []"
| "updateOne (p # ps) doc = (if p_id p = p_id doc then doc # ps else p # updateOne ps doc)"

text \<open>The document \<^verbatim>\<open>new Post(postData)\<close>: the setters run on \<open>title\<close> and \<open>slug\<close>, an
  absent \<open>status\<close> is \<^verbatim>\<open>'draft'\<close> and an absent \<open>readingTime\<close> is 0.\<close>

definition newDocument :: "oid \<Rightarrow> string \<Rightarrow> string \<Rightarrow> oid \<Rightarrow> body \<Rightarrow> post" where
  "newDocument i t c a postData =
     \<lparr>p_id = i, title = trim t, slug = map_option slugSetter (b_slug postData), content = c,
      author = a, status = (case b_status postData of None \<Rightarrow> Draft | Some s \<Rightarrow> s),
      publishedAt = b_publishedAt postData,
      readingTime = (case b_readingTime postData of None \<Rightarrow> 0 | Some r \<Rightarrow> r),
      likes = []\<rparr>"

text \<open>\<^verbatim>\<open>Post.create(postData)\<close>: build the document, validate it, run the save hook, insert.
  A path set from \<open>postData\<close> counts as modified on the new document; a path that only
  has its default does not.  The new \<open>_id\<close> and the clock are given by the caller.\<close>

definition Post_create :: "store \<Rightarrow> oid \<Rightarrow> nat \<Rightarrow> body \<Rightarrow> (error + post \<times> store) option" where
  "Post_create st i now postData =
     (case (b_title postData, b_content postData, b_author postData) of
        (Some t, Some c, Some a) \<Rightarrow>
          (let doc = newDocument i t c a postData in
           if \<not> (validTitle (title doc) \<and> validContent (content doc)) then Some (Inl ValidationError)
           else (case pre_save st
                        \<lparr>titleModified = True, statusModified = (b_status postData \<noteq> None),
                         contentModified = True\<rparr> True now doc of
                   None \<Rightarrow> None
                 | Some doc' \<Rightarrow> Some (insertOne st doc')))
      | _ \<Rightarrow> Some (Inl ValidationError))"

text \<open>\<^verbatim>\<open>doc.save()\<close> of a loaded document of which only \<open>likes\<close> was changed.\<close>

definition Post_save :: "store \<Rightarrow> nat \<Rightarrow> post \<Rightarrow> store option" where
  "Post_save st now doc =
     (case pre_save st \<lparr>titleModified = False, statusModified = False, contentModified = False\<rparr>
             False now doc of
        None \<Rightarrow> None
      | Some doc' \<Rightarrow> Some (updateOne st doc'))"

text \<open>\<^verbatim>\<open>Post.findByIdAndUpdate(id, update, { new: true, runValidators: true })\<close>: the
  update is cast (the setters run), the validators of the paths it sets run, the fields
  it holds are set on the document, and the unique index on \<open>slug\<close> is checked.  The
  save hook is document middleware and is not run by this query.\<close>

definition castUpdate :: "body \<Rightarrow> body" where
  "castUpdate b = b\<lparr>b_title := map_option trim (b_title b), b_slug := map_option slugSetter (b_slug b)\<rparr>"

definition updateValid :: "body \<Rightarrow> bool" where
  "updateValid b =
     ((case b_title b of None \<Rightarrow> True | Some t \<Rightarrow> validTitle t) \<and>
      (case b_content b of None \<Rightarrow> True | Some c \<Rightarrow> validContent c))"

definition applyUpdate :: "body \<Rightarrow> post \<Rightarrow> post" where
  "applyUpdate b p =
     p\<lparr>title := (case b_title b of None \<Rightarrow> title p | Some t \<Rightarrow> t),
       slug := (case b_slug b of None \<Rightarrow> slug p | Some s \<Rightarrow> Some s),
       content := (case b_content b of None \<Rightarrow> content p | Some c \<Rightarrow> c),
       author := (case b_author b of None \<Rightarrow> author p | Some a \<Rightarrow> a),
       status := (case b_status b of None \<Rightarrow> status p | Some s \<Rightarrow> s),
       publishedAt := (case b_publishedAt b of None \<Rightarrow> publishedAt p | Some d \<Rightarrow> Some d),
       readingTime := (case b_readingTime b of None \<Rightarrow> readingTime p | Some r \<Rightarrow> r)\<rparr>"

definition Post_findByIdAndUpdate :: "store \<Rightarrow> oid \<Rightarrow> body \<Rightarrow> error + post option \<times> store" where
  "Post_findByIdAndUpdate st i update =
     (let u = castUpdate update in
      if \<not> updateValid u then Inl ValidationError
      else (case find (\<lambda>p. p_id p = i) st of
              None \<Rightarrow> Inr (None, st)
            | Some p \<Rightarrow>
                (let p' = applyUpdate u p in
                 if list_ex (\<lambda>q. p_id q \<noteq> i \<and> slug q = slug p') st then Inl DuplicateKey
                 else Inr (Some p', updateOne st p'))))"

section \<open>The routes\<close>

text \<open>The middleware \<^verbatim>\<open>validatePostCreation\<close> and \<^verbatim>\<open>validatePostUpdate\<close> of
  express-validator: \<open>title\<close> and \<open>content\<close> are trimmed in the body and checked for
  their lengths; \<open>None\<close> is the 400 response of \<^verbatim>\<open>handleValidationErrors\<close>.  A status
  outside the three values is excluded by the type.\<close>

definition validatePostCreation :: "body \<Rightarrow> body option" where
  "validatePostCreation b =
     (let t = trim (case b_title b of None \<Rightarrow> [] | Some t \<Rightarrow> t);
          c = trim (case b_content b of None \<Rightarrow> [] | Some c \<Rightarrow> c)
      in if 1 \<le> length t \<and> length t \<le> 200 \<and> 1 \<le> length c
         then Some (b\<lparr>b_title := Some t, b_content := Some c\<rparr>) else None)"

definition validatePostUpdate :: "body \<Rightarrow> body option" where
  "validatePostUpdate b =
     (let t = map_option trim (b_title b); c = map_option trim (b_content b)
      in if (case t of None \<Rightarrow> True | Some t \<Rightarrow> 1 \<le> length t \<and> length t \<le> 200) \<and>
            (case c of None \<Rightarrow> True | Some c \<Rightarrow> 1 \<le> length c)
         then Some (b\<lparr>b_title := t, b_content := c\<rparr>) else None)"

text \<open>
  \<^verbatim>\<open>
  const postData = { ...req.body, author: req.user._id };
  const post = await Post.create(postData);
  res.status(201).json({ success: true, data: post });
  } catch (error) {
    if (error.name === 'ValidationError') { return res.status(400)... }
    res.status(500).json({ success: false, error: 'Server error' });
  \<close>
\<close>

definition router_post :: "store \<Rightarrow> oid \<Rightarrow> nat \<Rightarrow> user \<Rightarrow> body \<Rightarrow> (response \<times> store) option" where
  "router_post st i now usr reqBody =
     (let postData = reqBody\<lparr>b_author := Some (u_id usr)\<rparr> in
      case Post_create st i now postData of
        None \<Rightarrow> None
      | Some (Inr (doc, st')) \<Rightarrow> Some (Created doc, st')
      | Some (Inl ValidationError) \<Rightarrow> Some (ValidationFailed, st)
      | Some (Inl DuplicateKey) \<Rightarrow> Some (ServerError, st))"

text \<open>The lookup shared by the routes with an \<^verbatim>\<open>:id\<close> parameter: by ObjectId when the
  parameter matches \<^verbatim>\<open>/^[0-9a-fA-F]{24}$/\<close>, and by slug when that finds nothing.\<close>

definition isHex :: "char \<Rightarrow> bool" where
  "isHex c = (isDigit c \<or> (97 \<le> code c \<and> code c \<le> 102) \<or> (65 \<le> code c \<and> code c \<le> 70))"

definition isValidObjectId :: "string \<Rightarrow> bool" where
  "isValidObjectId i = (length i = 24 \<and> list_all isHex i)"

definition lookup :: "store \<Rightarrow> string \<Rightarrow> post option" where
  "lookup st i =
     (case (if isValidObjectId i then findById st i else None) of
        Some p \<Rightarrow> Some p
      | None \<Rightarrow> findOneSlug st i)"

text \<open>
  \<^verbatim>\<open>
  if (!post) { return res.status(404)... }
  if (post.author.toString() !== req.user._id.toString() && req.user.role !== 'admin') {
    return res.status(403)...
  }
  post = await Post.findByIdAndUpdate(post._id, req.body, { new: true, runValidators: true })
  res.status(200).json({ success: true, data: post });
  } catch (error) { res.status(500)... }
  \<close>
\<close>

definition router_put :: "store \<Rightarrow> string \<Rightarrow> user \<Rightarrow> body \<Rightarrow> response \<times> store" where
  "router_put st i usr reqBody =
     (case lookup st i of
        None \<Rightarrow> (NotFound, st)
      | Some p \<Rightarrow>
          if author p \<noteq> u_id usr \<and> u_role usr \<noteq> Admin then (Forbidden, st)
          else (case Post_findByIdAndUpdate st (p_id p) reqBody of
                  Inl e \<Rightarrow> (ServerError, st)
                | Inr (p', st') \<Rightarrow> (Updated p', st')))"

text \<open>\<^verbatim>\<open>findIndex\<close> gives -1 when nothing matches; \<^verbatim>\<open>splice(i, 1)\<close> removes the entry
  at index \<open>i\<close>.\<close>

fun findIndex :: "('a \<Rightarrow> bool) \<Rightarrow> 'a list \<Rightarrow> int" where
  "findIndex P [] = - 1"
| "findIndex P (x # xs) =
     (if P x then 0 else (let i = findIndex P xs in if i = - 1 then - 1 else i + 1))"

definition splice1 :: "int \<Rightarrow> 'a list \<Rightarrow> 'a list" where
  "splice1 i xs = take (nat i) xs @ drop (nat i + 1) xs"

text \<open>
  \<^verbatim>\<open>
  const likeIndex = post.likes.findIndex(like => like.user.toString() === req.user._id.toString());
  if (likeIndex > -1) { post.likes.splice(likeIndex, 1); }
  else { post.likes.push({ user: req.user._id }); }
  await post.save();
  res.status(200).json({ success: true,
    data: { likesCount: post.likes.length, isLiked: likeIndex === -1 } });
  \<close>
\<close>

definition toggleLike :: "oid \<Rightarrow> nat \<Rightarrow> like list \<Rightarrow> like list" where
  "toggleLike u now ls =
     (let likeIndex = findIndex (\<lambda>l. l_user l = u) ls in
      if likeIndex > - 1 then splice1 likeIndex ls
      else ls @ [\<lparr>l_user = u, l_createdAt = now\<rparr>])"

definition router_put_like :: "store \<Rightarrow> string \<Rightarrow> nat \<Rightarrow> user \<Rightarrow> (response \<times> store) option" where
  "router_put_like st i now usr =
     (case lookup st i of
        None \<Rightarrow> Some (NotFound, st)
      | Some p \<Rightarrow>
          (let likeIndex = findIndex (\<lambda>l. l_user l = u_id usr) (likes p);
               p' = p\<lparr>likes := toggleLike (u_id usr) now (likes p)\<rparr>
           in case Post_save st now p' of
                None \<Rightarrow> None
              | Some st' \<Rightarrow> Some (LikeResult (length (likes p')) (likeIndex = - 1), st')))"

text \<open>The users a post's like entries belong to, in the order of the entries.\<close>

definition likers :: "post \<Rightarrow> oid list" where
  "likers p = map l_user (likes p)"

text \<open>Requests as the server receives them, the validation middleware in front of the
  handlers, and a sequence of requests served one after the other.\<close>

datatype request =
    CreatePost oid nat user body
  | UpdatePost string user body
  | LikePost string nat user

fun serve :: "store \<Rightarrow> request \<Rightarrow> (response \<times> store) option" where
  "serve st (CreatePost i now usr b) =
     (case validatePostCreation b of
        None \<Rightarrow> Some (ValidationFailed, st)
      | Some b' \<Rightarrow> router_post st i now usr b')"
| "serve st (UpdatePost i usr b) =
     (case validatePostUpdate b of
        None \<Rightarrow> Some (ValidationFailed, st)
      | Some b' \<Rightarrow> Some (router_put st i usr b'))"
| "serve st (LikePost i now usr) = router_put_like st i now usr"

fun serveAll :: "store \<Rightarrow> request list \<Rightarrow> store option" where
  "serveAll st [] = Some st"
| "serveAll st (r # rs) =
     (case serve st r of None \<Rightarrow> None | Some (resp, st') \<Rightarrow> serveAll st' rs)"

text \<open>Creations of posts from one and the same body by one user, each with its own
  new ObjectId and time.\<close>

definition createAll :: "user \<Rightarrow> body \<Rightarrow> (oid \<times> nat) list \<Rightarrow> request list" where
  "createAll usr b xs = map (\<lambda>(i, now). CreatePost i now usr b) xs"

text \<open>The invariants of the two unique indexes, on \<open>slug\<close> and on \<open>_id\<close>.\<close>

definition slugsUnique :: "store \<Rightarrow> bool" where
  "slugsUnique st = distinct (map slug st)"

definition idsUnique :: "store \<Rightarrow> bool" where
  "idsUnique st = distinct (map p_id st)"

section \<open>Sample data\<close>

text \<open>Two authors, two ObjectIds and a request body with no field, for the concrete
  runs below.\<close>

definition alice :: user where
  "alice = \<lparr>u_id = ''aaaaaaaaaaaaaaaaaaaaaaaa'', u_role = Author\<rparr>"

definition bob :: user where
  "bob = \<lparr>u_id = ''bbbbbbbbbbbbbbbbbbbbbbbb'', u_role = Author\<rparr>"

definition oid1 :: oid where
  "oid1 = ''000000000000000000000001''"

definition oid2 :: oid where
  "oid2 = ''000000000000000000000002''"

definition noFields :: body where
  "noFields = \<lparr>b_title = None, b_slug = None, b_content = None, b_author = None,
     b_status = None, b_publishedAt = None, b_readingTime = None\<rparr>"

definition titled :: "string \<Rightarrow> body" where
  "titled t = noFields\<lparr>b_title := Some t, b_content := Some ''Some words of content.''\<rparr>"

text \<open>The post that the first creation with the title \<^verbatim>\<open>Hello, World!\<close> stores.\<close>

definition firstHello :: post where
  "firstHello = \<lparr>p_id = oid1, title = ''Hello, World!'', slug = Some ''hello-world'',
     content = ''Some words of content.'', author = u_id alice, status = Draft,
     publishedAt = None, readingTime = 1, likes = []\<rparr>"

text \<open>A content of \<open>n\<close> line-break tags and one word.\<close>

definition breaks :: "nat \<Rightarrow> string" where
  "breaks n = concat (replicate n ''<br />'') @ ''x''"

section \<open>Characters\<close>

lemma code_char_of: "code (char_of n) = n mod 256"
  by (simp add: code_def)

lemma code_less: "code c < 256"
  unfolding code_def by (metis of_char_mod_256 mod_less_divisor zero_less_numeral)

lemma lowerChar_not_upper: "\<not> isUpper (lowerChar c)"
  using code_less [of c] by (auto simp: lowerChar_def isUpper_def code_char_of)

lemma kept_lower_cases:
  "keptChar (lowerChar c) \<Longrightarrow>
     isLower (lowerChar c) \<or> isDigit (lowerChar c) \<or> isSpace (lowerChar c)"
  using lowerChar_not_upper [of c] by (auto simp: keptChar_def)

lemma hyphen_code: "code hyphen = 45"
  by (simp add: hyphen_def code_def)

lemma hyphen_not_space: "\<not> isSpace hyphen"
  by (simp add: isSpace_def hyphen_code)

lemma hyphen_not_kept: "\<not> keptChar hyphen"
  by (simp add: keptChar_def isSpace_def isLower_def isUpper_def isDigit_def hyphen_code)

section \<open>Replacing runs of a character class\<close>

lemma set_replaceRuns: "set (replaceRuns X r s) \<subseteq> {c \<in> set s. \<not> X c} \<union> set r"
proof (induction X r s rule: replaceRuns.induct)
  case (1 X r)
  then show ?case by simp
next
  case (2 X r c cs)
  have "set (dropWhile X cs) \<subseteq> set cs" by (rule set_dropWhileD [THEN subsetI]) 
  with 2 show ?case by (auto split: if_splits)
qed

lemma replaceRuns_hd:
  "s \<noteq> [] \<Longrightarrow> \<not> X (hd s) \<Longrightarrow> replaceRuns X r s \<noteq> [] \<and> hd (replaceRuns X r s) = hd s"
  by (cases s) auto

lemma doubled_Cons: "doubled h (a # s) = ((s \<noteq> [] \<and> a = h \<and> hd s = h) \<or> doubled h s)"
  by (cases s) auto

lemma replaceRuns_not_doubled:
  "h \<notin> set s \<Longrightarrow> \<not> doubled h (replaceRuns X [h] s)"
proof (induction X "[h]" s rule: replaceRuns.induct)
  case (1 X)
  then show ?case by simp
next
  case (2 X c cs)
  show ?case
  proof (cases "X c")
    case True
    let ?rest = "dropWhile X cs"
    have notin: "h \<notin> set ?rest" using 2 by (auto dest: set_dropWhileD)
    have ih: "\<not> doubled h (replaceRuns X [h] ?rest)" using 2 True notin by simp
    have "replaceRuns X [h] ?rest \<noteq> [] \<Longrightarrow> hd (replaceRuns X [h] ?rest) \<noteq> h"
    proof -
      assume ne: "replaceRuns X [h] ?rest \<noteq> []"
      then have rne: "?rest \<noteq> []" by (metis replaceRuns.simps(1))
      then have "\<not> X (hd ?rest)" by (rule hd_dropWhile)
      with rne have "hd (replaceRuns X [h] ?rest) = hd ?rest" by (simp add: replaceRuns_hd)
      moreover have "hd ?rest \<in> set ?rest" using rne by simp
      ultimately show ?thesis using notin by metis
    qed
    with ih True show ?thesis by (auto simp: doubled_Cons)
  next
    case False
    with 2 show ?thesis by (auto simp: doubled_Cons)
  qed
qed

lemma doubled_take: "doubled h (take n s) \<Longrightarrow> doubled h s"
proof (induction s arbitrary: n)
  case Nil
  then show ?case by simp
next
  case (Cons a s)
  show ?case
  proof (cases n)
    case 0
    with Cons.prems show ?thesis by simp
  next
    case (Suc m)
    with Cons.prems
    have "(take m s \<noteq> [] \<and> a = h \<and> hd (take m s) = h) \<or> doubled h (take m s)"
      by (simp add: doubled_Cons)
    then show ?thesis
    proof
      assume a: "take m s \<noteq> [] \<and> a = h \<and> hd (take m s) = h"
      then have "s \<noteq> []" "m \<noteq> 0" by auto
      then have "hd (take m s) = hd s" by (cases s; cases m) auto
      with a \<open>s \<noteq> []\<close> show ?thesis by (simp add: doubled_Cons)
    next
      assume "doubled h (take m s)"
      then have "doubled h s" by (rule Cons.IH)
      then show ?thesis by (simp add: doubled_Cons)
    qed
  qed
qed

lemma strip_ends:
  "rev (dropWhile P (rev (dropWhile P s))) = r \<Longrightarrow> r \<noteq> [] \<Longrightarrow> \<not> P (hd r) \<and> \<not> P (last r)"
proof -
  assume eq: "rev (dropWhile P (rev (dropWhile P s))) = r" and ne: "r \<noteq> []"
  let ?a = "dropWhile P s"
  let ?b = "dropWhile P (rev ?a)"
  from eq have r: "r = rev ?b" by simp
  with ne have bne: "?b \<noteq> []" by simp
  then have hb: "\<not> P (hd ?b)" by (rule hd_dropWhile)
  have lastr: "last r = hd ?b" using r bne by (simp add: last_rev)
  have ane: "?a \<noteq> []" using bne by (metis dropWhile.simps(1) rev.simps(1))
  then have ha: "\<not> P (hd ?a)" by (rule hd_dropWhile)
  have "\<not> P (last (rev ?a))" using ha ane by (simp add: last_rev)
  then have "last ?b = last (rev ?a)" using ane
    by (metis bne dropWhile_eq_Nil_conv last_appendR takeWhile_dropWhile_id)
  then have "last ?b = hd ?a" using ane by (simp add: last_rev)
  then have "hd r = hd ?a" using r bne by (simp add: hd_rev)
  with ha hb lastr show ?thesis by simp
qed

section \<open>The slug candidate\<close>

lemma baseSlug_chars: "c \<in> set (baseSlug t) \<Longrightarrow> slugChar c"
proof -
  assume "c \<in> set (baseSlug t)"
  then have "c \<in> set (replaceRuns isSpace [hyphen] (filter keptChar (toLowerCase t)))"
    unfolding baseSlug_def by (rule in_set_takeD)
  with set_replaceRuns [of isSpace "[hyphen]" "filter keptChar (toLowerCase t)"]
  have "(c \<in> set (filter keptChar (toLowerCase t)) \<and> \<not> isSpace c) \<or> c = hyphen"
    by auto
  then show "slugChar c"
  proof
    assume a: "c \<in> set (filter keptChar (toLowerCase t)) \<and> \<not> isSpace c"
    then obtain d where "c = lowerChar d" "keptChar c" by (auto simp: toLowerCase_def)
    with kept_lower_cases [of d] a show ?thesis by (auto simp: slugChar_def)
  next
    assume "c = hyphen" then show ?thesis by (simp add: slugChar_def)
  qed
qed

lemma baseSlug_length: "length (baseSlug t) \<le> 50"
  by (simp add: baseSlug_def)

lemma baseSlug_not_doubled: "\<not> doubled hyphen (baseSlug t)"
proof -
  have "hyphen \<notin> set (filter keptChar (toLowerCase t))"
    using hyphen_not_kept by auto
  then have "\<not> doubled hyphen (replaceRuns isSpace [hyphen] (filter keptChar (toLowerCase t)))"
    by (rule replaceRuns_not_doubled)
  then show ?thesis unfolding baseSlug_def using doubled_take by blast
qed

lemma generateSlug_chars: "c \<in> set (generateSlug t) \<Longrightarrow> slugChar c"
proof -
  let ?X = "\<lambda>c. isSpace c \<or> c = CHR ''_'' \<or> c = hyphen"
  let ?s2 = "filter (\<lambda>c. wordChar c \<or> isSpace c \<or> c = hyphen) (trim (toLowerCase t))"
  assume "c \<in> set (generateSlug t)"
  then have "c \<in> set (replaceRuns ?X [hyphen] ?s2)"
    by (auto simp: generateSlug_def Let_def dest!: set_dropWhileD)
  with set_replaceRuns [of ?X "[hyphen]" ?s2]
  have "(c \<in> set ?s2 \<and> \<not> ?X c) \<or> c = hyphen" by auto
  then show "slugChar c"
  proof
    assume a: "c \<in> set ?s2 \<and> \<not> ?X c"
    then have "c \<in> set (toLowerCase t)"
      by (auto simp: trim_def dest!: set_dropWhileD)
    then obtain d where "c = lowerChar d" by (auto simp: toLowerCase_def)
    with a lowerChar_not_upper [of d] show ?thesis by (auto simp: slugChar_def wordChar_def)
  next
    assume "c = hyphen" then show ?thesis by (simp add: slugChar_def)
  qed
qed

lemma startsWith_hd: "startsWith h s = (s \<noteq> [] \<and> hd s = h)"
  by (cases s) (simp_all add: startsWith_def)

lemma endsWith_last: "endsWith h s = (s \<noteq> [] \<and> last s = h)"
  by (simp add: endsWith_def startsWith_hd hd_rev)

lemma generateSlug_ends:
  "\<not> startsWith hyphen (generateSlug t) \<and> \<not> endsWith hyphen (generateSlug t)"
proof (cases "generateSlug t = []")
  case True
  then show ?thesis by (simp add: startsWith_hd endsWith_last)
next
  case False
  with strip_ends [where P = "\<lambda>c. c = hyphen" and r = "generateSlug t"]
  have "hd (generateSlug t) \<noteq> hyphen \<and> last (generateSlug t) \<noteq> hyphen"
    by (simp add: generateSlug_def Let_def)
  then show ?thesis by (simp add: startsWith_hd endsWith_last)
qed

text \<open>
  C4 (as the code has it).  For every title, the slug candidate of the save hook
  consists of the characters \<^verbatim>\<open>[a-z0-9-]\<close> only (so it is lower-case and holds no
  whitespace), never holds two hyphens in a row (each run of whitespace has become one
  hyphen) and is at most 50 characters long.  It may begin or end with a hyphen.  The
  front-end helper \<^verbatim>\<open>generateSlug\<close>, which no stored slug comes from, also yields
  \<^verbatim>\<open>[a-z0-9-]\<close> only and strips the hyphens at both ends, but has no bound on the length.
\<close>

theorem slug_candidate_shape:
  "list_all slugChar (baseSlug t) \<and> \<not> doubled hyphen (baseSlug t) \<and> length (baseSlug t) \<le> 50 \<and>
   list_all slugChar (generateSlug t) \<and>
   \<not> startsWith hyphen (generateSlug t) \<and> \<not> endsWith hyphen (generateSlug t)"
  using baseSlug_chars [of _ t] generateSlug_chars [of _ t]
  by (simp add: list_all_iff baseSlug_not_doubled baseSlug_length generateSlug_ends)

theorem slug_candidate_shape_witness:
  "baseSlug ''Hello, World!'' = ''hello-world'' \<and>
   list_all slugChar (baseSlug ''Hello, World!'') \<and>
   \<not> doubled hyphen (baseSlug ''Hello, World!'') \<and> length (baseSlug ''Hello, World!'') \<le> 50 \<and>
   generateSlug ''Hello, World!'' = ''hello-world'' \<and>
   list_all slugChar (generateSlug ''Hello, World!'')"
proof -
  have "baseSlug ''Hello, World!'' = ''hello-world''" by code_simp
  moreover have "generateSlug ''Hello, World!'' = ''hello-world''" by code_simp
  ultimately show ?thesis
    using slug_candidate_shape [of "''Hello, World!''"] by simp
qed

text \<open>The claim as stated fails: a title whose last (or first) word is stripped to
  nothing leaves the hyphen of the neighbouring whitespace at the end (or the start) of the
  candidate, and this is the slug that is stored.\<close>

theorem slug_candidate_hyphen_counterexample:
  "baseSlug ''Hello !'' = ''hello-'' \<and> endsWith hyphen (baseSlug ''Hello !'') \<and>
   baseSlug ''# Title'' = ''-title'' \<and> startsWith hyphen (baseSlug ''# Title'') \<and>
   map_option (map slug) (serveAll [] [CreatePost oid1 0 alice (titled ''Hello !'')])
     = Some [Some ''hello-'']"
  by code_simp

section \<open>The decimal suffix and the setter\<close>

lemma digitChar_code: "d < 10 \<Longrightarrow> code (digitChar d) = 48 + d"
proof -
  assume "d < 10"
  then have "(48 + d) mod 256 = 48 + d" by (intro mod_less) linarith
  then show ?thesis by (simp only: digitChar_def code_char_of)
qed

lemma digitChar_inj: "a < 10 \<Longrightarrow> b < 10 \<Longrightarrow> digitChar a = digitChar b \<Longrightarrow> a = b"
proof -
  assume a: "a < 10" and b: "b < 10" and eq: "digitChar a = digitChar b"
  have "48 + a = code (digitChar a)" using a by (rule digitChar_code [symmetric])
  also have "\<dots> = code (digitChar b)" by (simp only: eq)
  also have "\<dots> = 48 + b" using b by (rule digitChar_code)
  finally show "a = b" by linarith
qed

lemma digitChar_isDigit: "d < 10 \<Longrightarrow> isDigit (digitChar d)"
  by (simp add: isDigit_def digitChar_code)

lemma showNat_not_Nil: "showNat n \<noteq> []"
  by (subst showNat.simps) simp

lemma showNat_digits: "c \<in> set (showNat n) \<Longrightarrow> isDigit c"
proof (induction n rule: showNat.induct)
  case (1 n)
  show ?case
  proof (cases "n < 10")
    case True
    with "1.prems" show ?thesis by (subst (asm) showNat.simps) (simp add: digitChar_isDigit)
  next
    case False
    with "1.prems" have "c \<in> set (showNat (n div 10)) \<or> c = digitChar (n mod 10)"
      by (subst (asm) showNat.simps) auto
    with False "1.IH" show ?thesis by (auto simp: digitChar_isDigit)
  qed
qed

lemma showNat_inj: "showNat n = showNat m \<Longrightarrow> n = m"
proof (induction n arbitrary: m rule: showNat.induct)
  case (1 n)
  show ?case
  proof (cases "n < 10")
    case n: True
    show ?thesis
    proof (cases "m < 10")
      case True
      with n "1.prems" show ?thesis
        by (subst (asm) showNat.simps, subst (asm) (2) showNat.simps) (auto dest: digitChar_inj)
    next
      case False
      with n "1.prems" have "[digitChar n] = showNat (m div 10) @ [digitChar (m mod 10)]"
        by (subst (asm) showNat.simps, subst (asm) (2) showNat.simps) simp
      then show ?thesis using showNat_not_Nil [of "m div 10"] by simp
    qed
  next
    case n: False
    show ?thesis
    proof (cases "m < 10")
      case True
      with n "1.prems" have "showNat (n div 10) @ [digitChar (n mod 10)] = [digitChar m]"
        by (subst (asm) showNat.simps, subst (asm) (2) showNat.simps) simp
      then show ?thesis using showNat_not_Nil [of "n div 10"] by simp
    next
      case False
      with n "1.prems"
      have "showNat (n div 10) @ [digitChar (n mod 10)] = showNat (m div 10) @ [digitChar (m mod 10)]"
        by (subst (asm) showNat.simps, subst (asm) (2) showNat.simps) simp
      then have "showNat (n div 10) = showNat (m div 10)" "digitChar (n mod 10) = digitChar (m mod 10)"
        by simp_all
      moreover have "n mod 10 < 10" "m mod 10 < 10" by simp_all
      ultimately have "n div 10 = m div 10" "n mod 10 = m mod 10"
        using n "1.IH" [of "m div 10"] digitChar_inj [of "n mod 10" "m mod 10"] by blast+
      then show ?thesis by (metis div_mult_mod_eq)
    qed
  qed
qed

lemma digit_not_space: "isDigit c \<Longrightarrow> \<not> isSpace c"
  by (auto simp: isDigit_def isSpace_def)

lemma lowerChar_digit: "isDigit c \<Longrightarrow> lowerChar c = c"
  by (auto simp: isDigit_def lowerChar_def isUpper_def)

lemma lowerChar_hyphen: "lowerChar hyphen = hyphen"
  by (simp add: lowerChar_def isUpper_def hyphen_code)

lemma toLowerCase_showNat: "toLowerCase (showNat n) = showNat n"
  unfolding toLowerCase_def by (rule map_idI) (simp add: lowerChar_digit showNat_digits)

lemma trim_append:
  "y \<noteq> [] \<Longrightarrow> \<not> isSpace (hd y) \<Longrightarrow> \<not> isSpace (last y) \<Longrightarrow> trim (x @ y) = dropWhile isSpace x @ y"
proof -
  assume y: "y \<noteq> []" and h: "\<not> isSpace (hd y)" and l: "\<not> isSpace (last y)"
  have dy: "dropWhile isSpace y = y" using y h by (cases y) auto
  have 1: "dropWhile isSpace (x @ y) = dropWhile isSpace x @ y"
    using dy by (simp add: dropWhile_append)
  have "rev y \<noteq> []" "\<not> isSpace (hd (rev y))" using y l by (simp_all add: hd_rev)
  then have "dropWhile isSpace (rev y @ rev (dropWhile isSpace x)) = rev y @ rev (dropWhile isSpace x)"
    by (cases "rev y") auto
  with 1 show ?thesis by (simp add: trim_def)
qed

lemma slugSetter_suffixed:
  "slugSetter (suffixed base k) = dropWhile isSpace (toLowerCase base) @ [hyphen] @ showNat k"
proof -
  have "toLowerCase (suffixed base k) = toLowerCase base @ ([hyphen] @ showNat k)"
    using toLowerCase_showNat [of k]
    by (simp add: suffixed_def toLowerCase_def lowerChar_hyphen)
  moreover have "\<not> isSpace (last ([hyphen] @ showNat k))"
    using showNat_not_Nil [of k] showNat_digits [of "last (showNat k)" k]
    by (simp add: digit_not_space)
  ultimately show ?thesis
    using trim_append [of "[hyphen] @ showNat k" "toLowerCase base"]
    by (simp add: slugSetter_def hyphen_not_space)
qed

lemma slugSetter_suffixed_inj:
  "slugSetter (suffixed base j) = slugSetter (suffixed base k) \<Longrightarrow> j = k"
  by (simp add: slugSetter_suffixed showNat_inj)

lemma find_SomeD: "find P xs = Some x \<Longrightarrow> x \<in> set xs \<and> P x"
  by (metis find_Some_iff nth_mem)

lemma findOneSlug_SomeD:
  "findOneSlug st c = Some e \<Longrightarrow> e \<in> set st \<and> slug e = Some (slugSetter c)"
  unfolding findOneSlug_def by (rule find_SomeD)

lemma slugTaken_stored: "slugTaken st self c \<Longrightarrow> Some (slugSetter c) \<in> set (map slug st)"
proof -
  assume "slugTaken st self c"
  then obtain e where "findOneSlug st c = Some e"
    by (auto simp: slugTaken_def split: option.splits)
  then have "e \<in> set st" "slug e = Some (slugSetter c)"
    by (simp_all add: findOneSlug_SomeD)
  then show ?thesis by (metis image_eqI set_map)
qed

lemma uniqueSlug_free: "\<not> slugTaken st self c \<Longrightarrow> uniqueSlug st self base c n = Some c"
  by (subst uniqueSlug.simps) (auto simp: slugTaken_def split: option.splits)

lemma uniqueSlug_taken:
  "slugTaken st self c \<Longrightarrow>
   uniqueSlug st self base c n = uniqueSlug st self base (suffixed base n) (n + 1)"
  by (subst uniqueSlug.simps) (auto simp: slugTaken_def split: option.splits)

lemma uniqueSlug_run:
  "(\<forall>j. n \<le> j \<and> j < n + d \<longrightarrow> slugTaken st self (suffixed base j)) \<Longrightarrow>
   \<not> slugTaken st self (suffixed base (n + d)) \<Longrightarrow>
   uniqueSlug st self base (suffixed base n) (n + 1) = Some (suffixed base (n + d))"
proof (induction d arbitrary: n)
  case 0
  then show ?case by (simp add: uniqueSlug_free)
next
  case (Suc d)
  have "slugTaken st self (suffixed base n)" using Suc.prems(1) by simp
  then have "uniqueSlug st self base (suffixed base n) (n + 1)
      = uniqueSlug st self base (suffixed base (n + 1)) (n + 1 + 1)"
    by (rule uniqueSlug_taken)
  also have "\<dots> = Some (suffixed base (n + 1 + d))"
    using Suc.prems by (intro Suc.IH) auto
  finally show ?case by simp
qed

lemma free_suffix_exists:
  "\<exists>k. n \<le> k \<and> k \<le> n + length st \<and> \<not> slugTaken st self (suffixed base k)"
proof (rule ccontr)
  assume "\<not> ?thesis"
  then have all: "\<And>k. n \<le> k \<Longrightarrow> k \<le> n + length st \<Longrightarrow> slugTaken st self (suffixed base k)"
    by blast
  let ?g = "\<lambda>k. Some (slugSetter (suffixed base k))"
  have sub: "?g ` {n..n + length st} \<subseteq> set (map slug st)"
  proof (rule image_subsetI)
    fix k assume "k \<in> {n..n + length st}"
    then have "slugTaken st self (suffixed base k)" using all by simp
    then show "?g k \<in> set (map slug st)" by (rule slugTaken_stored)
  qed
  have "inj_on ?g {n..n + length st}"
    by (rule inj_onI) (simp add: slugSetter_suffixed_inj)
  then have "card (?g ` {n..n + length st}) = length st + 1"
    by (simp add: card_image)
  moreover have "card (?g ` {n..n + length st}) \<le> card (set (map slug st))"
    using sub by (intro card_mono) simp_all
  moreover have "card (set (map slug st)) \<le> length st"
    using card_length [of "map slug st"] by simp
  ultimately show False by linarith
qed

lemma uniqueSlug_from:
  "\<exists>k. n \<le> k \<and> k \<le> n + length st \<and>
       uniqueSlug st self base (suffixed base n) (n + 1) = Some (suffixed base k) \<and>
       \<not> slugTaken st self (suffixed base k) \<and>
       (\<forall>j. n \<le> j \<and> j < k \<longrightarrow> slugTaken st self (suffixed base j))"
proof -
  let ?P = "\<lambda>k. n \<le> k \<and> \<not> slugTaken st self (suffixed base k)"
  obtain k1 where k1: "n \<le> k1" "k1 \<le> n + length st" "\<not> slugTaken st self (suffixed base k1)"
    using free_suffix_exists by blast
  define k where "k = (LEAST k. ?P k)"
  have Pk: "?P k" unfolding k_def by (rule LeastI [of ?P k1]) (simp add: k1)
  have le: "k \<le> k1" unfolding k_def by (rule Least_le) (simp add: k1)
  have below: "\<And>j. n \<le> j \<Longrightarrow> j < k \<Longrightarrow> slugTaken st self (suffixed base j)"
    unfolding k_def using not_less_Least [of _ ?P] by blast
  obtain d where d: "k = n + d" using Pk by (metis le_Suc_ex)
  have "uniqueSlug st self base (suffixed base n) (n + 1) = Some (suffixed base (n + d))"
    using below Pk unfolding d by (intro uniqueSlug_run) auto
  with Pk le k1 below d show ?thesis by (intro exI [of _ k]) auto
qed

lemma uniqueSlug_total:
  "\<exists>r. uniqueSlug st self base c n = Some r \<and> \<not> slugTaken st self r \<and>
       (r = c \<or> (\<exists>k. r = suffixed base k))"
proof (cases "slugTaken st self c")
  case False
  then show ?thesis by (simp add: uniqueSlug_free)
next
  case True
  with uniqueSlug_from [of n st self base] show ?thesis
    by (auto simp: uniqueSlug_taken)
qed

lemma free_not_stored:
  assumes "slugsUnique st" and "\<not> slugTaken st self r"
    and "p \<in> set st" and "slug p = Some (slugSetter r)"
  shows "p_id p = self"
proof (cases "findOneSlug st r")
  case None
  with assms(3,4) show ?thesis by (auto simp: findOneSlug_def find_None_iff)
next
  case (Some e)
  then have e: "e \<in> set st" "slug e = Some (slugSetter r)"
    by (simp_all add: findOneSlug_SomeD)
  have inj: "inj_on slug (set st)" using assms(1) by (simp add: slugsUnique_def distinct_map)
  have "slug p = slug e" using e assms(4) by simp
  with inj e(1) assms(3) have "p = e" by (metis inj_onD)
  with Some assms(2) show ?thesis by (simp add: slugTaken_def)
qed

lemma slugChar_not_space: "slugChar c \<Longrightarrow> \<not> isSpace c"
  by (auto simp: slugChar_def isSpace_def isLower_def isDigit_def hyphen_code)

lemma slugChar_lower: "slugChar c \<Longrightarrow> lowerChar c = c"
  by (auto simp: slugChar_def lowerChar_def isUpper_def isLower_def isDigit_def hyphen_code)

lemma slugSetter_id: "list_all slugChar s \<Longrightarrow> slugSetter s = s"
proof -
  assume a: "list_all slugChar s"
  then have low: "toLowerCase s = s"
    unfolding toLowerCase_def by (intro map_idI) (simp add: list_all_iff slugChar_lower)
  have "\<And>x. list_all slugChar x \<Longrightarrow> dropWhile isSpace x = x"
    by (case_tac x) (auto simp: slugChar_not_space)
  with a have "dropWhile isSpace s = s" "dropWhile isSpace (rev s) = rev s"
    by (simp_all add: list_all_iff)
  with low show ?thesis by (simp add: slugSetter_def trim_def)
qed

lemma slugChar_suffixed: "list_all slugChar base \<Longrightarrow> list_all slugChar (suffixed base k)"
  using showNat_digits [of _ k] by (auto simp: suffixed_def list_all_iff slugChar_def)

text \<open>
  C9.  For every state of the uniqueness loop (every candidate, base and counter) and
  every collection, the loop leaves with a result for which its own check holds: no
  stored post, or the post being saved, is what \<^verbatim>\<open>findOne\<close> finds for it.  When the
  slugs of the collection are distinct, no stored post other than the one being saved
  has that result as its slug.  The slug is compared as the schema's setter casts it, and
  the setter leaves the result as it is whenever base and candidate are made of slug
  characters, as the candidate of the hook is.
\<close>

theorem uniqueSlug_terminates:
  "\<exists>r. uniqueSlug st self base candidate counter = Some r \<and> \<not> slugTaken st self r \<and>
       (slugsUnique st \<longrightarrow> (\<forall>p\<in>set st. slug p = Some (slugSetter r) \<longrightarrow> p_id p = self)) \<and>
       (list_all slugChar base \<and> list_all slugChar candidate \<longrightarrow> slugSetter r = r)"
proof -
  obtain r where r: "uniqueSlug st self base candidate counter = Some r"
      "\<not> slugTaken st self r" "r = candidate \<or> (\<exists>k. r = suffixed base k)"
    using uniqueSlug_total by blast
  have "slugsUnique st \<longrightarrow> (\<forall>p\<in>set st. slug p = Some (slugSetter r) \<longrightarrow> p_id p = self)"
    using r(2) by (blast intro: free_not_stored)
  moreover have "list_all slugChar base \<and> list_all slugChar candidate \<longrightarrow> slugSetter r = r"
    using r(3) by (auto intro: slugSetter_id slugChar_suffixed)
  ultimately show ?thesis using r(1,2) by blast
qed

theorem uniqueSlug_terminates_witness:
  "slugsUnique [firstHello] \<and> list_all slugChar ''hello-world'' \<and>
   uniqueSlug [firstHello] oid2 ''hello-world'' ''hello-world'' 1 = Some ''hello-world-1'' \<and>
   \<not> slugTaken [firstHello] oid2 ''hello-world-1'' \<and>
   \<not> list_ex (\<lambda>p. slug p = Some ''hello-world-1'' \<and> p_id p \<noteq> oid2) [firstHello]"
proof -
  have u: "slugsUnique [firstHello]" "list_all slugChar ''hello-world''" by code_simp+
  obtain r where r: "uniqueSlug [firstHello] oid2 ''hello-world'' ''hello-world'' 1 = Some r"
      "\<not> slugTaken [firstHello] oid2 r"
      "\<forall>p\<in>set [firstHello]. slug p = Some (slugSetter r) \<longrightarrow> p_id p = oid2"
      "slugSetter r = r"
    using uniqueSlug_terminates [of "[firstHello]" oid2 "''hello-world''" "''hello-world''" 1] u
    by blast
  have e: "uniqueSlug [firstHello] oid2 ''hello-world'' ''hello-world'' 1 = Some ''hello-world-1''"
    by code_simp
  with r u show ?thesis by (auto simp: list_ex_iff)
qed

text \<open>
  C2 (as the code has it).  The loop accepts the candidate when no other post has it;
  otherwise it tries the candidate with the suffixes -1, -2, -3, \<dots> in this order, and
  returns the first of them that no other post has.  So the first suffix is -1: the
  second post with a title whose candidate is \<^verbatim>\<open>hello-world\<close> gets \<^verbatim>\<open>hello-world-1\<close>.
\<close>

theorem suffixes_in_order:
  "(\<not> slugTaken st self base \<longrightarrow> uniqueSlug st self base base 1 = Some base) \<and>
   (slugTaken st self base \<and> 1 \<le> k \<and>
    list_all (\<lambda>j. slugTaken st self (suffixed base j)) [1..<k] \<and>
    \<not> slugTaken st self (suffixed base k)
      \<longrightarrow> uniqueSlug st self base base 1 = Some (base @ ''-'' @ showNat k))"
proof (intro conjI impI)
  assume "\<not> slugTaken st self base"
  then show "uniqueSlug st self base base 1 = Some base" by (rule uniqueSlug_free)
next
  assume a: "slugTaken st self base \<and> 1 \<le> k \<and>
    list_all (\<lambda>j. slugTaken st self (suffixed base j)) [1..<k] \<and>
    \<not> slugTaken st self (suffixed base k)"
  then obtain d where d: "k = 1 + d" by (metis le_Suc_ex)
  have "uniqueSlug st self base base 1 = uniqueSlug st self base (suffixed base 1) (1 + 1)"
    using a by (intro uniqueSlug_taken) simp
  also have "\<dots> = Some (suffixed base (1 + d))"
    using a unfolding d by (intro uniqueSlug_run) (auto simp: list_all_iff)
  finally show "uniqueSlug st self base base 1 = Some (base @ ''-'' @ showNat k)"
    by (simp add: d suffixed_def hyphen_def)
qed

theorem suffixes_in_order_witness:
  "uniqueSlug [] oid1 ''hello-world'' ''hello-world'' 1 = Some ''hello-world'' \<and>
   uniqueSlug [firstHello] oid2 ''hello-world'' ''hello-world'' 1 = Some ''hello-world-1''"
proof -
  have "\<not> slugTaken [] oid1 ''hello-world''" by code_simp
  moreover have "slugTaken [firstHello] oid2 ''hello-world'' \<and> (1::nat) \<le> 1 \<and>
      list_all (\<lambda>j. slugTaken [firstHello] oid2 (suffixed ''hello-world'' j)) [1..<1] \<and>
      \<not> slugTaken [firstHello] oid2 (suffixed ''hello-world'' 1)"
    by code_simp
  moreover have "showNat 1 = ''1''" by code_simp
  ultimately show ?thesis
    using suffixes_in_order [of "[]" oid1 "''hello-world''" 1]
      suffixes_in_order [of "[firstHello]" oid2 "''hello-world''" 1]
    by simp
qed

text \<open>The claim as stated fails at its own example: two creations with the title
  \<^verbatim>\<open>Hello, World!\<close>, one after the other, store the slugs \<^verbatim>\<open>hello-world\<close> and
  \<^verbatim>\<open>hello-world-1\<close>, not \<^verbatim>\<open>hello-world-2\<close>.\<close>

theorem second_slug_counterexample:
  "map_option (map slug)
     (serveAll [] [CreatePost oid1 100 alice (titled ''Hello, World!''),
                   CreatePost oid2 200 alice (titled ''Hello, World!'')])
     = Some [Some ''hello-world'', Some ''hello-world-1''] \<and>
   map_option (map slug)
     (serveAll [] [CreatePost oid1 100 alice (titled ''Hello, World!''),
                   CreatePost oid2 200 alice (titled ''Hello, World!'')])
     \<noteq> Some [Some ''hello-world'', Some ''hello-world-2'']"
  by code_simp

section \<open>The unique indexes as an invariant\<close>

lemma updateOne_keeps:
  assumes "distinct (map p_id st)" and "distinct (map slug st)"
    and "\<forall>q\<in>set st. p_id q \<noteq> p_id p' \<longrightarrow> slug q \<noteq> slug p'"
  shows "map p_id (updateOne st p') = map p_id st \<and> distinct (map slug (updateOne st p')) \<and>
         set (map slug (updateOne st p')) \<subseteq> insert (slug p') (set (map slug st))"
  using assms
proof (induction st)
  case Nil
  then show ?case by simp
next
  case (Cons q qs)
  show ?case
  proof (cases "p_id q = p_id p'")
    case True
    have "\<forall>x\<in>set qs. p_id x \<noteq> p_id p'" using Cons.prems(1) True by (fastforce simp: image_iff)
    then have "slug p' \<notin> set (map slug qs)" using Cons.prems(3) by auto
    with True Cons.prems show ?thesis by auto
  next
    case False
    have ih: "map p_id (updateOne qs p') = map p_id qs \<and> distinct (map slug (updateOne qs p')) \<and>
         set (map slug (updateOne qs p')) \<subseteq> insert (slug p') (set (map slug qs))"
      using Cons.prems by (intro Cons.IH) auto
    have "slug q \<noteq> slug p'" using Cons.prems(3) False by simp
    moreover have "slug q \<notin> set (map slug qs)" using Cons.prems(2) by simp
    ultimately have "slug q \<notin> set (map slug (updateOne qs p'))" using ih by blast
    with False ih show ?thesis by auto
  qed
qed

lemma updateOne_invariant:
  "idsUnique st \<Longrightarrow> slugsUnique st \<Longrightarrow>
   \<forall>q\<in>set st. p_id q \<noteq> p_id p' \<longrightarrow> slug q \<noteq> slug p' \<Longrightarrow>
   idsUnique (updateOne st p') \<and> slugsUnique (updateOne st p')"
  using updateOne_keeps [of st p'] by (simp add: idsUnique_def slugsUnique_def)

lemma insertOne_invariant:
  assumes "idsUnique st" and "slugsUnique st" and "insertOne st doc = Inr (d, st')"
  shows "d = doc \<and> st' = st @ [doc] \<and> idsUnique st' \<and> slugsUnique st'"
proof -
  from assms(3) have free: "\<not> list_ex (\<lambda>p. p_id p = p_id doc \<or> slug p = slug doc) st"
    and eq: "d = doc" "st' = st @ [doc]"
    by (auto simp: insertOne_def split: if_splits)
  from free have "p_id doc \<notin> set (map p_id st)" "slug doc \<notin> set (map slug st)"
    by (fastforce simp: list_ex_iff image_iff)+
  with assms(1,2) eq show ?thesis by (simp add: idsUnique_def slugsUnique_def)
qed

lemma assignSlug_total:
  "\<exists>p. assignSlug st m isNew this = Some p \<and> p_id p = p_id this \<and>
       (slug p = slug this \<or> (\<exists>r. slug p = Some (slugSetter r) \<and> \<not> slugTaken st (p_id this) r))"
proof (cases "(titleModified m \<and> noSlug this) \<or> (isNew \<and> noSlug this)")
  case True
  obtain r where "uniqueSlug st (p_id this) (baseSlug (title this)) (baseSlug (title this)) 1 = Some r"
      "\<not> slugTaken st (p_id this) r"
    using uniqueSlug_total by blast
  with True show ?thesis by (auto simp: assignSlug_def)
next
  case False
  then show ?thesis by (auto simp: assignSlug_def)
qed

lemma setPublishedAt_same [simp]:
  "p_id (setPublishedAt m now p) = p_id p" "slug (setPublishedAt m now p) = slug p"
  by (simp_all add: setPublishedAt_def)

lemma setReadingTime_same [simp]:
  "p_id (setReadingTime m p) = p_id p" "slug (setReadingTime m p) = slug p"
  by (simp_all add: setReadingTime_def)

lemma pre_save_total:
  "\<exists>p. pre_save st m isNew now this = Some p \<and> p_id p = p_id this \<and>
       (slug p = slug this \<or> (\<exists>r. slug p = Some (slugSetter r) \<and> \<not> slugTaken st (p_id this) r))"
  using assignSlug_total [of st m isNew this] by (auto simp: pre_save_def)

lemma Post_create_total:
  assumes "idsUnique st" and "slugsUnique st"
  shows "(\<exists>e. Post_create st i now b = Some (Inl e)) \<or>
         (\<exists>doc st'. Post_create st i now b = Some (Inr (doc, st')) \<and> idsUnique st' \<and> slugsUnique st')"
proof (cases "\<exists>t c a. b_title b = Some t \<and> b_content b = Some c \<and> b_author b = Some a")
  case False
  then have "Post_create st i now b = Some (Inl ValidationError)"
    by (auto simp: Post_create_def split: option.splits)
  then show ?thesis by simp
next
  case True
  then obtain t c a where f: "b_title b = Some t" "b_content b = Some c" "b_author b = Some a"
    by blast
  let ?doc = "newDocument i t c a b"
  let ?m = "\<lparr>titleModified = True, statusModified = (b_status b \<noteq> None), contentModified = True\<rparr>"
  show ?thesis
  proof (cases "validTitle (title ?doc) \<and> validContent (content ?doc)")
    case False
    with f have "Post_create st i now b = Some (Inl ValidationError)"
      by (auto simp: Post_create_def Let_def)
    then show ?thesis by simp
  next
    case True
    obtain d where d: "pre_save st ?m True now ?doc = Some d"
      using pre_save_total [of st ?m True now ?doc] by blast
    with True f have pc: "Post_create st i now b = Some (insertOne st d)"
      by (auto simp: Post_create_def Let_def)
    show ?thesis
    proof (cases "insertOne st d")
      case (Inl e)
      with pc show ?thesis by simp
    next
      case (Inr x)
      then obtain d' st' where "insertOne st d = Inr (d', st')" by (cases x) auto
      with pc assms insertOne_invariant [of st d d' st'] show ?thesis by auto
    qed
  qed
qed

lemma router_post_invariant:
  assumes "idsUnique st" and "slugsUnique st"
  shows "\<exists>resp st'. router_post st i now usr b = Some (resp, st') \<and> idsUnique st' \<and> slugsUnique st'"
proof -
  let ?b = "b\<lparr>b_author := Some (u_id usr)\<rparr>"
  from Post_create_total [OF assms, of i now ?b]
  show ?thesis
  proof
    assume "\<exists>e. Post_create st i now ?b = Some (Inl e)"
    then obtain e where "Post_create st i now ?b = Some (Inl e)" by blast
    with assms show ?thesis by (cases e) (simp_all add: router_post_def)
  next
    assume "\<exists>doc st'. Post_create st i now ?b = Some (Inr (doc, st')) \<and> idsUnique st' \<and> slugsUnique st'"
    then show ?thesis by (auto simp: router_post_def)
  qed
qed

lemma applyUpdate_id [simp]: "p_id (applyUpdate u p) = p_id p"
  by (simp add: applyUpdate_def)

lemma Post_findByIdAndUpdate_invariant:
  assumes "idsUnique st" and "slugsUnique st" and "Post_findByIdAndUpdate st i b = Inr (r, st')"
  shows "idsUnique st' \<and> slugsUnique st'"
proof (cases "find (\<lambda>p. p_id p = i) st")
  case None
  with assms show ?thesis
    by (auto simp: Post_findByIdAndUpdate_def Let_def split: if_splits)
next
  case (Some p)
  then have pid: "p_id p = i" by (metis (mono_tags, lifting) find_Some_iff)
  let ?p' = "applyUpdate (castUpdate b) p"
  from assms(3) Some have st': "st' = updateOne st ?p'"
    and free: "\<not> list_ex (\<lambda>q. p_id q \<noteq> i \<and> slug q = slug ?p') st"
    by (auto simp: Post_findByIdAndUpdate_def Let_def split: if_splits)
  from free pid have "\<forall>q\<in>set st. p_id q \<noteq> p_id ?p' \<longrightarrow> slug q \<noteq> slug ?p'"
    by (auto simp: list_ex_iff)
  with assms(1,2) show ?thesis unfolding st' by (rule updateOne_invariant)
qed

lemma router_put_invariant:
  assumes "idsUnique st" and "slugsUnique st"
  shows "idsUnique (snd (router_put st i usr b)) \<and> slugsUnique (snd (router_put st i usr b))"
  using assms Post_findByIdAndUpdate_invariant [OF assms]
  by (auto simp: router_put_def split: option.splits sum.splits)

lemma lookup_in_store: "lookup st i = Some p \<Longrightarrow> p \<in> set st"
  by (auto simp: lookup_def findById_def findOneSlug_def split: option.splits if_splits dest: find_SomeD)

lemma pre_save_unmodified:
  "pre_save st \<lparr>titleModified = False, statusModified = False, contentModified = False\<rparr> False now doc
     = Some doc"
  by (simp add: pre_save_def assignSlug_def setPublishedAt_def setReadingTime_def)

lemma Post_save_eq: "Post_save st now doc = Some (updateOne st doc)"
  by (simp add: Post_save_def pre_save_unmodified)

lemma same_keys_free:
  assumes "idsUnique st" and "slugsUnique st" and "p \<in> set st" and "p_id p' = p_id p" and "slug p' = slug p"
  shows "\<forall>q\<in>set st. p_id q \<noteq> p_id p' \<longrightarrow> slug q \<noteq> slug p'"
proof (intro ballI impI)
  fix q assume q: "q \<in> set st" "p_id q \<noteq> p_id p'"
  have "inj_on slug (set st)" using assms(2) by (simp add: slugsUnique_def distinct_map)
  with q assms(3,4) have "slug q \<noteq> slug p" by (metis inj_onD)
  then show "slug q \<noteq> slug p'" by (simp add: assms(5))
qed

lemma router_put_like_invariant:
  assumes "idsUnique st" and "slugsUnique st"
  shows "\<exists>resp st'. router_put_like st i now usr = Some (resp, st') \<and> idsUnique st' \<and> slugsUnique st'"
proof (cases "lookup st i")
  case None
  with assms show ?thesis by (simp add: router_put_like_def)
next
  case (Some p)
  let ?p' = "p\<lparr>likes := toggleLike (u_id usr) now (likes p)\<rparr>"
  have "p \<in> set st" using Some by (rule lookup_in_store)
  then have "\<forall>q\<in>set st. p_id q \<noteq> p_id ?p' \<longrightarrow> slug q \<noteq> slug ?p'"
    using assms by (intro same_keys_free [where p = p]) simp_all
  with assms have "idsUnique (updateOne st ?p') \<and> slugsUnique (updateOne st ?p')"
    by (rule updateOne_invariant)
  with Some show ?thesis by (simp add: router_put_like_def Post_save_eq Let_def)
qed

lemma serve_invariant:
  assumes "idsUnique st" and "slugsUnique st"
  shows "\<exists>resp st'. serve st r = Some (resp, st') \<and> idsUnique st' \<and> slugsUnique st'"
proof (cases r)
  case (CreatePost i now usr b)
  with assms router_post_invariant [OF assms] show ?thesis
    by (auto split: option.splits)
next
  case (UpdatePost i usr b)
  with assms router_put_invariant [OF assms] show ?thesis
    by (auto split: option.splits simp: prod_eq_iff)
next
  case (LikePost i now usr)
  with router_put_like_invariant [OF assms] show ?thesis by simp
qed

lemma serveAll_invariant:
  "idsUnique st \<Longrightarrow> slugsUnique st \<Longrightarrow>
   \<exists>st'. serveAll st rs = Some st' \<and> idsUnique st' \<and> slugsUnique st'"
proof (induction rs arbitrary: st)
  case Nil
  then show ?case by simp
next
  case (Cons r rs)
  obtain resp st1 where s: "serve st r = Some (resp, st1)" "idsUnique st1" "slugsUnique st1"
    using serve_invariant [OF Cons.prems] by blast
  with Cons.IH [of st1] show ?case by simp
qed

lemma trim_trim: "trim (trim s) = trim s"
proof (cases "trim s = []")
  case True
  moreover have "trim [] = []" by (simp add: trim_def)
  ultimately show ?thesis by simp
next
  case False
  with strip_ends [where P = isSpace and r = "trim s" and s = s]
  have e: "\<not> isSpace (hd (trim s))" "\<not> isSpace (last (trim s))" by (simp_all add: trim_def)
  have 1: "dropWhile isSpace (trim s) = trim s" using False e(1) by (cases "trim s") auto
  have "rev (trim s) \<noteq> []" "\<not> isSpace (hd (rev (trim s)))" using False e(2) by (simp_all add: hd_rev)
  then have 2: "dropWhile isSpace (rev (trim s)) = rev (trim s)" by (cases "rev (trim s)") auto
  show ?thesis by (subst trim_def) (simp only: 1 2 rev_rev_ident)
qed

lemma create_fresh_stored:
  assumes "slugsUnique st" and "i \<notin> set (map p_id st)"
    and "validatePostCreation b \<noteq> None" and "b_slug b = None"
  shows "\<exists>doc. serve st (CreatePost i now usr b) = Some (Created doc, st @ [doc]) \<and>
               p_id doc = i \<and> slug doc \<notin> set (map slug st)"
proof -
  define t where "t = trim (case b_title b of None \<Rightarrow> [] | Some t \<Rightarrow> t)"
  define c where "c = trim (case b_content b of None \<Rightarrow> [] | Some c \<Rightarrow> c)"
  define b' where "b' = b\<lparr>b_title := Some t, b_content := Some c\<rparr>"
  from assms(3) have ok: "1 \<le> length t" "length t \<le> 200" "1 \<le> length c"
    and v: "validatePostCreation b = Some b'"
    by (auto simp: validatePostCreation_def Let_def t_def c_def b'_def split: if_splits)
  define pd where "pd = b'\<lparr>b_author := Some (u_id usr)\<rparr>"
  define doc where "doc = newDocument i t c (u_id usr) pd"
  define m where "m = \<lparr>titleModified = True, statusModified = (b_status pd \<noteq> None), contentModified = True\<rparr>"
  have tt: "trim t = t" unfolding t_def by (rule trim_trim)
  have doc_f: "p_id doc = i" "slug doc = None" "title doc = t" "content doc = c"
    using assms(4) by (simp_all add: doc_def newDocument_def pd_def b'_def tt)
  have valid: "validTitle (title doc) \<and> validContent (content doc)"
    using ok by (auto simp: doc_f validTitle_def validContent_def)
  obtain r where r: "uniqueSlug st i (baseSlug t) (baseSlug t) 1 = Some r" "\<not> slugTaken st i r"
    using uniqueSlug_total by blast
  define d where "d = setReadingTime m (setPublishedAt m now (doc\<lparr>slug := Some (slugSetter r)\<rparr>))"
  have ps: "pre_save st m True now doc = Some d"
    using r(1) by (simp add: pre_save_def assignSlug_def noSlug_def doc_f d_def)
  have d_f: "p_id d = i" "slug d = Some (slugSetter r)" by (simp_all add: d_def doc_f)
  have nostored: "slug d \<notin> set (map slug st)"
  proof
    assume "slug d \<in> set (map slug st)"
    then obtain p where p: "p \<in> set st" "slug p = Some (slugSetter r)" by (auto simp: d_f)
    with assms(1) r(2) have "p_id p = i" by (rule free_not_stored)
    with p(1) assms(2) show False by auto
  qed
  have "\<not> list_ex (\<lambda>p. p_id p = p_id d \<or> slug p = slug d) st"
  proof
    assume "list_ex (\<lambda>p. p_id p = p_id d \<or> slug p = slug d) st"
    then obtain p where "p \<in> set st" "p_id p = i \<or> slug p = slug d"
      by (auto simp: list_ex_iff d_f)
    then have "i \<in> set (map p_id st) \<or> slug d \<in> set (map slug st)"
      by (metis image_eqI set_map)
    with nostored assms(2) show False by blast
  qed
  then have ins: "insertOne st d = Inr (d, st @ [d])" by (simp add: insertOne_def)
  have "Post_create st i now pd =
      (case pre_save st m True now doc of None \<Rightarrow> None | Some doc' \<Rightarrow> Some (insertOne st doc'))"
    using valid unfolding doc_def m_def
    by (simp add: Post_create_def pd_def b'_def Let_def)
  with ps ins have "Post_create st i now pd = Some (Inr (d, st @ [d]))" by simp
  then have "router_post st i now usr b' = Some (Created d, st @ [d])"
    by (simp add: router_post_def pd_def Let_def)
  with v nostored d_f show ?thesis by auto
qed

lemma createAll_stored:
  "idsUnique st \<Longrightarrow> slugsUnique st \<Longrightarrow> distinct (map fst xs) \<Longrightarrow>
   set (map fst xs) \<inter> set (map p_id st) = {} \<Longrightarrow>
   validatePostCreation b \<noteq> None \<Longrightarrow> b_slug b = None \<Longrightarrow>
   \<exists>new. serveAll st (createAll usr b xs) = Some (st @ new) \<and> length new = length xs \<and>
         slugsUnique (st @ new)"
proof (induction xs arbitrary: st)
  case Nil
  then show ?case by (simp add: createAll_def)
next
  case (Cons x xs)
  obtain i now where x: "x = (i, now)" by (cases x)
  have fresh: "i \<notin> set (map p_id st)" using Cons.prems(4) x by auto
  obtain doc where doc: "serve st (CreatePost i now usr b) = Some (Created doc, st @ [doc])"
      "p_id doc = i" "slug doc \<notin> set (map slug st)"
    using create_fresh_stored [OF Cons.prems(2) fresh Cons.prems(5,6)] by blast
  have inv: "idsUnique (st @ [doc])" "slugsUnique (st @ [doc])"
    using Cons.prems(1,2) fresh doc(2,3) by (auto simp: idsUnique_def slugsUnique_def)
  have disj: "set (map fst xs) \<inter> set (map p_id (st @ [doc])) = {}"
    using Cons.prems(3,4) x doc(2) by auto
  have "distinct (map fst xs)" using Cons.prems(3) by simp
  from Cons.IH [OF inv this disj Cons.prems(5,6)]
  obtain new where new: "serveAll (st @ [doc]) (createAll usr b xs) = Some (st @ [doc] @ new)"
      "length new = length xs" "slugsUnique (st @ [doc] @ new)"
    by auto
  with doc(1) x show ?case
    by (intro exI [of _ "doc # new"]) (simp add: createAll_def)
qed

text \<open>
  C3.  Starting from a collection that satisfies its two unique indexes (the empty one
  does), every sequence of create, update and like requests served one after the other
  is served to its end, and after every request of the sequence (\<open>take n\<close>) the slugs
  of the stored posts are pairwise distinct.  In particular, creations from one and the
  same body with a valid title and content and no slug of its own, each with a new
  ObjectId, are all stored, and the slugs are pairwise distinct.
\<close>

theorem slugs_stay_unique:
  assumes "idsUnique st" and "slugsUnique st"
  shows "(\<exists>st'. serveAll st (take n reqs) = Some st' \<and> slugsUnique st') \<and>
         (distinct (map fst xs) \<and> set (map fst xs) \<inter> set (map p_id st) = {} \<and>
          validatePostCreation b \<noteq> None \<and> b_slug b = None
            \<longrightarrow> (\<exists>new. serveAll st (createAll usr b xs) = Some (st @ new) \<and>
                       length new = length xs \<and> slugsUnique (st @ new)))"
  using serveAll_invariant [OF assms, of "take n reqs"] createAll_stored [OF assms, of xs b usr]
  by blast

theorem slugs_stay_unique_witness:
  "idsUnique [] \<and> slugsUnique [] \<and>
   (\<exists>st'. serveAll [] (take 3 [CreatePost oid1 1 alice (titled ''Hello, World!''),
                               CreatePost oid2 2 bob (titled ''Hello, World!''),
                               UpdatePost oid2 bob (noFields\<lparr>b_slug := Some ''hello-world''\<rparr>)])
            = Some st' \<and> slugsUnique st' \<and>
          map slug st' = [Some ''hello-world'', Some ''hello-world-1'']) \<and>
   validatePostCreation (titled ''Hello, World!'') \<noteq> None \<and>
   (\<exists>new. serveAll [] (createAll alice (titled ''Hello, World!'') [(oid1, 1), (oid2, 2)])
            = Some new \<and> length new = 2 \<and> slugsUnique new)"
proof -
  let ?reqs = "[CreatePost oid1 1 alice (titled ''Hello, World!''),
                CreatePost oid2 2 bob (titled ''Hello, World!''),
                UpdatePost oid2 bob (noFields\<lparr>b_slug := Some ''hello-world''\<rparr>)]"
  have i: "idsUnique []" "slugsUnique []" by (simp_all add: idsUnique_def slugsUnique_def)
  have e: "map_option (map slug) (serveAll [] (take 3 ?reqs))
      = Some [Some ''hello-world'', Some ''hello-world-1'']"
    by code_simp
  have h: "distinct (map fst [(oid1, 1::nat), (oid2, 2)]) \<and>
      set (map fst [(oid1, 1::nat), (oid2, 2)]) \<inter> set (map p_id ([] :: store)) = {} \<and>
      validatePostCreation (titled ''Hello, World!'') \<noteq> None \<and>
      b_slug (titled ''Hello, World!'') = None"
    by code_simp
  from slugs_stay_unique [OF i, of 3 ?reqs "[(oid1, 1), (oid2, 2)]" "titled ''Hello, World!''" alice]
  have "(\<exists>st'. serveAll [] (take 3 ?reqs) = Some st' \<and> slugsUnique st') \<and>
      (\<exists>new. serveAll [] (createAll alice (titled ''Hello, World!'') [(oid1, 1), (oid2, 2)])
            = Some ([] @ new) \<and> length new = length [(oid1, 1::nat), (oid2, 2)] \<and>
            slugsUnique ([] @ new))"
    using h by blast
  with i e h show ?thesis by auto
qed

section \<open>The update route\<close>

text \<open>
  C7.  The update route answers NotFound exactly when no post matches the \<^verbatim>\<open>:id\<close>
  parameter, as an ObjectId or as a slug, and Forbidden exactly when a post matches and
  the caller is neither its author nor an admin.  Both answers are given before any
  write: the collection is the one the request found.
\<close>

theorem update_not_found_forbidden:
  "(fst (router_put st i usr b) = NotFound \<longleftrightarrow> lookup st i = None) \<and>
   (fst (router_put st i usr b) = Forbidden \<longleftrightarrow>
      (\<exists>p. lookup st i = Some p \<and> author p \<noteq> u_id usr \<and> u_role usr \<noteq> Admin)) \<and>
   (fst (router_put st i usr b) = NotFound \<or> fst (router_put st i usr b) = Forbidden
      \<longrightarrow> snd (router_put st i usr b) = st)"
  by (auto simp: router_put_def split: option.splits sum.splits)

theorem update_not_found_forbidden_witness:
  "lookup [firstHello] ''no-such-post'' = None \<and>
   router_put [firstHello] ''no-such-post'' alice (noFields\<lparr>b_title := Some ''New''\<rparr>)
     = (NotFound, [firstHello]) \<and>
   lookup [firstHello] oid1 = Some firstHello \<and> author firstHello \<noteq> u_id bob \<and>
   u_role bob \<noteq> Admin \<and>
   router_put [firstHello] oid1 bob (noFields\<lparr>b_title := Some ''New''\<rparr>)
     = (Forbidden, [firstHello])"
proof -
  have a: "lookup [firstHello] ''no-such-post'' = None" by code_simp
  have b: "lookup [firstHello] oid1 = Some firstHello \<and> author firstHello \<noteq> u_id bob \<and>
      u_role bob \<noteq> Admin"
    by code_simp
  from a update_not_found_forbidden
    [of "[firstHello]" "''no-such-post''" alice "noFields\<lparr>b_title := Some ''New''\<rparr>"]
  have 1: "router_put [firstHello] ''no-such-post'' alice (noFields\<lparr>b_title := Some ''New''\<rparr>)
     = (NotFound, [firstHello])"
    by (simp add: prod_eq_iff)
  from b update_not_found_forbidden
    [of "[firstHello]" oid1 bob "noFields\<lparr>b_title := Some ''New''\<rparr>"]
  have 2: "router_put [firstHello] oid1 bob (noFields\<lparr>b_title := Some ''New''\<rparr>)
     = (Forbidden, [firstHello])"
    by (simp add: prod_eq_iff)
  from a b 1 2 show ?thesis by simp
qed

text \<open>
  C8, at a failing input.  The update route hands the request body to
  \<^verbatim>\<open>findByIdAndUpdate\<close> as it is, so the update of a post by its owner with an
  \<open>author\<close> field in the body replaces the stored author.  The create route does not
  let the body choose the author: it overwrites the field with the caller.
\<close>

theorem update_changes_author:
  "map_option (map author)
     (serveAll [] [CreatePost oid1 1 alice (titled ''Hello, World!''),
                   UpdatePost oid1 alice (noFields\<lparr>b_author := Some (u_id bob)\<rparr>)])
     = Some [u_id bob] \<and>
   map_option (map author)
     (serveAll [] [CreatePost oid1 1 alice ((titled ''Hello, World!'')\<lparr>b_author := Some (u_id bob)\<rparr>)])
     = Some [u_id alice] \<and>
   u_id bob \<noteq> u_id alice"
  by code_simp

text \<open>
  C1, at a failing input.  The save hook sets \<open>publishedAt\<close> when the status of the
  saved document has been changed to \<^verbatim>\<open>published\<close>, and it does so for a post that is
  created as published.  The update route writes with \<^verbatim>\<open>findByIdAndUpdate\<close>, which
  does not run the hook: a draft that is published by an update is stored as published
  with no \<open>publishedAt\<close>.
\<close>

theorem publish_by_update_leaves_publishedAt_unset:
  "map_option (map status)
     (serveAll [] [CreatePost oid1 1 alice (titled ''Hello, World!''),
                   UpdatePost oid1 alice (noFields\<lparr>b_status := Some Published\<rparr>)])
     = Some [Published] \<and>
   map_option (map publishedAt)
     (serveAll [] [CreatePost oid1 1 alice (titled ''Hello, World!''),
                   UpdatePost oid1 alice (noFields\<lparr>b_status := Some Published\<rparr>)])
     = Some [None] \<and>
   map_option (map publishedAt)
     (serveAll [] [CreatePost oid1 7 alice ((titled ''Hello, World!'')\<lparr>b_status := Some Published\<rparr>)])
     = Some [Some 7]"
  by code_simp

section \<open>Likes\<close>

lemma findIndex_ge: "- 1 \<le> findIndex P xs"
  by (induction xs) (auto simp: Let_def)

lemma findIndex_none: "(findIndex P xs = - 1) = (\<forall>x\<in>set xs. \<not> P x)"
proof (induction xs)
  case Nil
  then show ?case by simp
next
  case (Cons a xs)
  have "- 1 \<le> findIndex P xs" by (rule findIndex_ge)
  with Cons.IH show ?case by (auto simp: Let_def)
qed

lemma splice_found:
  "u \<in> set (map l_user ls) \<Longrightarrow>
   map l_user (splice1 (findIndex (\<lambda>l. l_user l = u) ls) ls) = remove1 u (map l_user ls)"
proof (induction ls)
  case Nil
  then show ?case by simp
next
  case (Cons x xs)
  show ?case
  proof (cases "l_user x = u")
    case True
    then show ?thesis by (simp add: splice1_def)
  next
    case False
    with Cons.prems have mem: "u \<in> set (map l_user xs)" by auto
    let ?i = "findIndex (\<lambda>l. l_user l = u) xs"
    have "?i \<noteq> - 1" using mem by (auto simp: findIndex_none)
    with findIndex_ge [of "\<lambda>l. l_user l = u" xs] have ge: "0 \<le> ?i" by linarith
    then have "nat (?i + 1) = Suc (nat ?i)" by simp
    with False \<open>?i \<noteq> - 1\<close> have
      "splice1 (findIndex (\<lambda>l. l_user l = u) (x # xs)) (x # xs) = x # splice1 ?i xs"
      by (simp add: splice1_def Let_def)
    with False Cons.IH [OF mem] show ?thesis by auto
  qed
qed

lemma likers_toggle:
  "map l_user (toggleLike u now ls) =
     (if u \<in> set (map l_user ls) then remove1 u (map l_user ls) else map l_user ls @ [u])"
proof (cases "u \<in> set (map l_user ls)")
  case True
  then have "findIndex (\<lambda>l. l_user l = u) ls \<noteq> - 1" by (auto simp: findIndex_none)
  with findIndex_ge [of "\<lambda>l. l_user l = u" ls] have "findIndex (\<lambda>l. l_user l = u) ls > - 1"
    by linarith
  with True show ?thesis by (simp add: toggleLike_def Let_def splice_found)
next
  case False
  then have "findIndex (\<lambda>l. l_user l = u) ls = - 1" by (auto simp: findIndex_none)
  with False show ?thesis by (simp add: toggleLike_def Let_def)
qed

lemma find_updateOne:
  assumes "distinct (map p_id st)" and "p \<in> set st" and "p_id p' = p_id p" and "P p' = P p"
  shows "find P (updateOne st p') = (if find P st = Some p then Some p' else find P st)"
  using assms(1,2)
proof (induction st)
  case Nil
  then show ?case by simp
next
  case (Cons q qs)
  show ?case
  proof (cases "p_id q = p_id p'")
    case True
    have "p_id q \<notin> set (map p_id qs)" using Cons.prems(1) by simp
    then have "p \<notin> set qs" using True assms(3) by (metis image_eqI set_map)
    with Cons.prems(2) have pq: "p = q" by simp
    have "find P qs \<noteq> Some p" using \<open>p \<notin> set qs\<close> by (metis find_Some_iff nth_mem)
    with True pq assms(4) show ?thesis by auto
  next
    case False
    then have "p \<noteq> q" using assms(3) by auto
    with Cons.prems have "p \<in> set qs" "distinct (map p_id qs)" by auto
    with Cons.IH have "find P (updateOne qs p') = (if find P qs = Some p then Some p' else find P qs)"
      by simp
    with False \<open>p \<noteq> q\<close> show ?thesis by auto
  qed
qed

lemma lookup_updateOne:
  assumes "idsUnique st" and "lookup st i = Some p" and "p_id p' = p_id p" and "slug p' = slug p"
  shows "lookup (updateOne st p') i = Some p'"
proof -
  have mem: "p \<in> set st" using assms(2)
    by (auto simp: lookup_def findById_def findOneSlug_def split: option.splits if_splits
        dest: find_SomeD)
  have d: "distinct (map p_id st)" using assms(1) by (simp add: idsUnique_def)
  have byId: "findById (updateOne st p') i = (if findById st i = Some p then Some p' else findById st i)"
    unfolding findById_def using d mem assms(3) by (intro find_updateOne) simp_all
  have bySlug: "findOneSlug (updateOne st p') i
      = (if findOneSlug st i = Some p then Some p' else findOneSlug st i)"
    unfolding findOneSlug_def using d mem assms(3,4) by (intro find_updateOne) simp_all
  from assms(2) show ?thesis
    by (auto simp: lookup_def byId bySlug split: option.splits if_splits)
qed

lemma like_once:
  assumes "idsUnique st" and "lookup st i = Some p" and "distinct (likers p)"
  shows "\<exists>p' st'. router_put_like st i now usr
           = Some (LikeResult (length (likes p')) (u_id usr \<in> set (likers p')), st') \<and>
         idsUnique st' \<and> lookup st' i = Some p' \<and>
         likers p' = (if u_id usr \<in> set (likers p) then remove1 (u_id usr) (likers p)
                      else likers p @ [u_id usr]) \<and>
         distinct (likers p') \<and>
         (u_id usr \<in> set (likers p') \<longleftrightarrow> u_id usr \<notin> set (likers p))"
proof -
  let ?u = "u_id usr"
  define p' where "p' = p\<lparr>likes := toggleLike ?u now (likes p)\<rparr>"
  have lk: "likers p' = (if ?u \<in> set (likers p) then remove1 ?u (likers p) else likers p @ [?u])"
    by (simp add: likers_def p'_def likers_toggle)
  with assms(3) have dist: "distinct (likers p')" by auto
  from lk assms(3) have flag: "?u \<in> set (likers p') \<longleftrightarrow> ?u \<notin> set (likers p)" by auto
  have "(findIndex (\<lambda>l. l_user l = ?u) (likes p) = - 1) = (?u \<notin> set (likers p))"
    unfolding findIndex_none likers_def by (fastforce simp: image_iff)
  with flag have idx: "(findIndex (\<lambda>l. l_user l = ?u) (likes p) = - 1) = (?u \<in> set (likers p'))"
    by simp
  have look: "lookup (updateOne st p') i = Some p'"
    using assms(1,2) by (rule lookup_updateOne) (simp_all add: p'_def)
  have "p \<in> set st" using assms(2)
    by (auto simp: lookup_def findById_def findOneSlug_def split: option.splits if_splits
        dest: find_SomeD)
  have ids: "map p_id (updateOne st p') = map p_id st"
    by (induction st) (auto simp: p'_def)
  then have inv: "idsUnique (updateOne st p')" using assms(1) by (simp add: idsUnique_def)
  have "router_put_like st i now usr
      = Some (LikeResult (length (likes p')) (?u \<in> set (likers p')), updateOne st p')"
    using assms(2) idx by (simp add: router_put_like_def Let_def Post_save_eq p'_def)
  with inv look lk dist flag show ?thesis by blast
qed

text \<open>
  C10.  Let the collection have distinct ids, let the \<^verbatim>\<open>:id\<close> parameter find a post,
  and let the post's likes hold at most one entry per user.  Then one call of the like
  route by a user removes the user's entry when there is one and appends one entry for
  the user when there is none; the likes still hold at most one entry per user; the
  answer carries the number of entries and an \<open>isLiked\<close> flag that is the user's
  membership after the call, which is the opposite of the membership before; and a
  second call by the same user gives back the set of users the likes began with.
\<close>

theorem like_toggles:
  assumes "idsUnique st" and "lookup st i = Some p" and "distinct (likers p)"
  shows "\<exists>p' st'. router_put_like st i now usr
           = Some (LikeResult (length (likes p')) (u_id usr \<in> set (likers p')), st') \<and>
         lookup st' i = Some p' \<and>
         likers p' = (if u_id usr \<in> set (likers p) then remove1 (u_id usr) (likers p)
                      else likers p @ [u_id usr]) \<and>
         distinct (likers p') \<and>
         (u_id usr \<in> set (likers p') \<longleftrightarrow> u_id usr \<notin> set (likers p)) \<and>
         (\<exists>p'' st''. router_put_like st' i now' usr
           = Some (LikeResult (length (likes p'')) (u_id usr \<in> set (likers p'')), st'') \<and>
           lookup st'' i = Some p'' \<and> set (likers p'') = set (likers p))"
proof -
  obtain p' st' where 1: "router_put_like st i now usr
           = Some (LikeResult (length (likes p')) (u_id usr \<in> set (likers p')), st')"
      "idsUnique st'" "lookup st' i = Some p'"
      "likers p' = (if u_id usr \<in> set (likers p) then remove1 (u_id usr) (likers p)
                      else likers p @ [u_id usr])"
      "distinct (likers p')" "u_id usr \<in> set (likers p') \<longleftrightarrow> u_id usr \<notin> set (likers p)"
    using like_once [OF assms] by blast
  obtain p'' st'' where 2: "router_put_like st' i now' usr
           = Some (LikeResult (length (likes p'')) (u_id usr \<in> set (likers p'')), st'')"
      "lookup st'' i = Some p''"
      "likers p'' = (if u_id usr \<in> set (likers p') then remove1 (u_id usr) (likers p')
                      else likers p' @ [u_id usr])"
    using like_once [OF 1(2,3,5)] by blast
  have "set (likers p'') = set (likers p)"
    using 1(4,6) 2(3) assms(3) by (auto simp: remove1_append)
  with 1 2 show ?thesis by blast
qed

theorem like_toggles_witness:
  "idsUnique [firstHello] \<and> lookup [firstHello] ''hello-world'' = Some firstHello \<and>
   distinct (likers firstHello) \<and>
   (\<exists>p' st'. router_put_like [firstHello] ''hello-world'' 5 bob
        = Some (LikeResult (length (likes p')) True, st') \<and>
      lookup st' ''hello-world'' = Some p' \<and> likers p' = [u_id bob] \<and>
      (\<exists>p'' st''. router_put_like st' ''hello-world'' 6 bob
          = Some (LikeResult (length (likes p'')) False, st'') \<and>
        lookup st'' ''hello-world'' = Some p'' \<and> set (likers p'') = {}))"
proof -
  have h: "idsUnique [firstHello]" "lookup [firstHello] ''hello-world'' = Some firstHello"
    "distinct (likers firstHello)"
    by code_simp+
  have e: "likers firstHello = []" by code_simp
  from like_toggles [OF h, of 5 bob 6] e h show ?thesis by auto
qed

section \<open>Reading time\<close>

lemma splitFrom_length: "1 \<le> length (splitFrom tok s)"
  by (induction tok s rule: splitFrom.induct) auto

lemma ceilDiv_pos: "1 \<le> n \<Longrightarrow> 1 \<le> ceilDiv n 200"
  by (simp add: ceilDiv_def Suc_le_eq div_greater_zero_iff)

lemma assignSlug_content: "assignSlug st m isNew this = Some p \<Longrightarrow> content p = content this"
  by (auto simp: assignSlug_def split: if_splits option.splits)

lemma pre_save_readingTime:
  "pre_save st m isNew now this = Some p \<Longrightarrow> contentModified m \<Longrightarrow>
   content p = content this \<and> readingTime p = ceilDiv (length (splitSpaces (content p))) 200"
  by (auto simp: pre_save_def setReadingTime_def setPublishedAt_def
      split: option.splits dest: assignSlug_content)

lemma Post_create_readingTime:
  assumes "Post_create st i now b = Some (Inr (doc, st'))"
  shows "b_content b = Some (content doc) \<and>
         readingTime doc = ceilDiv (length (splitSpaces (content doc))) 200"
proof -
  from assms obtain t c a where f: "b_title b = Some t" "b_content b = Some c" "b_author b = Some a"
    by (auto simp: Post_create_def split: option.splits)
  let ?m = "\<lparr>titleModified = True, statusModified = (b_status b \<noteq> None), contentModified = True\<rparr>"
  from assms f obtain d where d: "pre_save st ?m True now (newDocument i t c a b) = Some d"
      "insertOne st d = Inr (doc, st')"
    by (auto simp: Post_create_def Let_def split: if_splits option.splits)
  from d(2) have "doc = d" by (auto simp: insertOne_def split: if_splits)
  with pre_save_readingTime [OF d(1)] f show ?thesis by (simp add: newDocument_def)
qed

lemma setReadingTime_idem:
  "readingTime p = ceilDiv (length (splitSpaces (content p))) 200 \<Longrightarrow> setReadingTime m p = p"
  by (simp add: setReadingTime_def)

text \<open>
  C5 (as the code has it).  A post that the create route stores has the trimmed content
  of the request, and its \<open>readingTime\<close> is the ceiling of \<open>n / 200\<close>, where \<open>n\<close> is the
  number of pieces into which the runs of whitespace split the content as it is, markup
  included; this is at least 1, and computing it again for the same content changes
  nothing.  The count of the words that are left once the tags are stripped, with 0 for
  an empty text and at least 1 otherwise, is that of the front-end helper
  \<^verbatim>\<open>calculateReadingTime\<close>, which no stored field comes from.
\<close>

theorem reading_time_on_create:
  assumes "serve st (CreatePost i now usr b) = Some (Created doc, st')"
  shows "(\<exists>c. b_content b = Some c \<and> content doc = trim c) \<and>
         readingTime doc = ceilDiv (length (splitSpaces (content doc))) 200 \<and>
         1 \<le> readingTime doc \<and>
         setReadingTime m doc = doc \<and>
         calculateReadingTime [] = 0 \<and>
         (text \<noteq> [] \<longrightarrow> 1 \<le> calculateReadingTime text)"
proof -
  from assms obtain b' where v: "validatePostCreation b = Some b'"
      and r: "router_post st i now usr b' = Some (Created doc, st')"
    by (auto split: option.splits)
  from v obtain c where c: "b_content b = Some c" "b_content b' = Some (trim c)"
    by (cases "b_content b") (auto simp: validatePostCreation_def Let_def trim_def split: if_splits)
  from r have "Post_create st i now (b'\<lparr>b_author := Some (u_id usr)\<rparr>) = Some (Inr (doc, st'))"
    by (auto simp: router_post_def Let_def split: option.splits sum.splits error.splits)
  from Post_create_readingTime [OF this] c
  have k: "content doc = trim c" "readingTime doc = ceilDiv (length (splitSpaces (content doc))) 200"
    by simp_all
  have "1 \<le> readingTime doc"
    unfolding k(2) splitSpaces_def by (intro ceilDiv_pos splitFrom_length)
  with c k show ?thesis
    by (simp add: setReadingTime_idem calculateReadingTime_def)
qed

theorem reading_time_on_create_witness:
  "serve [] (CreatePost oid1 1 alice (titled ''Hello, World!''))
     = Some (Created firstHello, [firstHello]) \<and>
   content firstHello = trim ''Some words of content.'' \<and>
   length (splitSpaces (content firstHello)) = 4 \<and> readingTime firstHello = 1 \<and>
   setReadingTime \<lparr>titleModified = False, statusModified = False, contentModified = True\<rparr>
     firstHello = firstHello \<and>
   calculateReadingTime [] = 0 \<and> 1 \<le> calculateReadingTime ''Some words of content.''"
proof -
  have e: "serve [] (CreatePost oid1 1 alice (titled ''Hello, World!''))
      = Some (Created firstHello, [firstHello])"
    by code_simp
  have f: "length (splitSpaces (content firstHello)) = 4 \<and> readingTime firstHello = 1 \<and>
      b_content (titled ''Hello, World!'') = Some ''Some words of content.''"
    by code_simp
  from reading_time_on_create [OF e,
      of "\<lparr>titleModified = False, statusModified = False, contentModified = True\<rparr>"
         "''Some words of content.''"] e f
  show ?thesis by simp
qed

text \<open>The claim as stated fails for a content with markup: 200 \<^verbatim>\<open><br />\<close> tags and one
  word are 201 pieces for the save hook, which stores a reading time of 2, and one word
  once the tags are stripped, for which the claimed reading time is 1.\<close>

lemma space_facts:
  "\<not> isSpace CHR ''<''" "\<not> isSpace CHR ''b''" "\<not> isSpace CHR ''r''" "isSpace CHR '' ''"
  "\<not> isSpace CHR ''/''" "\<not> isSpace CHR ''>''" "\<not> isSpace CHR ''x''"
  by (simp_all add: isSpace_def code_def)

lemma splitFrom_breaks: "length (splitFrom tok (breaks n)) = n + 1"
proof (induction n arbitrary: tok)
  case 0
  then show ?case by (simp add: breaks_def space_facts)
next
  case (Suc n)
  have "splitFrom tok (breaks (Suc n)) = (tok @ ''<br'') # splitFrom ''/>'' (breaks n)"
    by (simp add: breaks_def space_facts)
  with Suc.IH show ?case by simp
qed

lemma stripTags_breaks: "stripTags (breaks n) = ''x''"
proof (induction n)
  case 0
  then show ?case by (simp add: breaks_def)
next
  case (Suc n)
  have "stripTags (breaks (Suc n)) = stripTags (breaks n)"
    by (simp add: breaks_def)
  with Suc.IH show ?case by simp
qed

lemma breaks_trimmed: "trim (breaks n) = breaks n"
proof -
  have "breaks n \<noteq> []" "\<not> isSpace (last (breaks n))" by (simp_all add: breaks_def space_facts)
  moreover have "\<not> isSpace (hd (breaks n))"
    by (cases n) (simp_all add: breaks_def space_facts)
  ultimately show ?thesis using trim_append [of "breaks n" "[]"] by simp
qed

theorem reading_time_counterexample:
  "map_option (map readingTime)
     (serveAll [] [CreatePost oid1 1 alice
        (noFields\<lparr>b_title := Some ''Line breaks'', b_content := Some (breaks 200)\<rparr>)])
     = Some [2] \<and>
   wordCount (breaks 200) = 1 \<and> ceilDiv (wordCount (breaks 200)) 200 = 1 \<and>
   calculateReadingTime (breaks 200) = 1"
proof -
  let ?b = "noFields\<lparr>b_title := Some ''Line breaks'', b_content := Some (breaks 200)\<rparr>"
  have t: "trim ''Line breaks'' = ''Line breaks''" by code_simp
  have v: "validatePostCreation ?b = Some ?b"
    by (simp add: validatePostCreation_def Let_def noFields_def breaks_trimmed t)
       (simp add: breaks_def)
  have "\<exists>doc. serve [] (CreatePost oid1 1 alice ?b) = Some (Created doc, [] @ [doc]) \<and>
      p_id doc = oid1 \<and> slug doc \<notin> set (map slug [])"
    using create_fresh_stored [of "[]" oid1 ?b 1 alice] v
    by (simp add: slugsUnique_def noFields_def)
  then obtain doc where doc: "serve [] (CreatePost oid1 1 alice ?b) = Some (Created doc, [doc])"
    by auto
  have "Post_create [] oid1 1 (?b\<lparr>b_author := Some (u_id alice)\<rparr>) = Some (Inr (doc, [doc]))"
    using doc v
    by (auto simp: router_post_def Let_def split: option.splits sum.splits error.splits)
  from Post_create_readingTime [OF this]
  have "content doc = breaks 200"
      "readingTime doc = ceilDiv (length (splitSpaces (content doc))) 200"
    by simp_all
  then have "readingTime doc = 2"
    by (simp add: splitSpaces_def splitFrom_breaks ceilDiv_def)
  with doc have 1: "map_option (map readingTime) (serveAll [] [CreatePost oid1 1 alice ?b]) = Some [2]"
    by simp
  have "splitSpaces ''x'' = [''x'']" by (simp add: splitSpaces_def space_facts)
  then have 2: "wordCount (breaks 200) = 1" by (simp add: wordCount_def stripTags_breaks)
  have 3: "calculateReadingTime (breaks 200) = 1"
    by (simp add: calculateReadingTime_def 2 ceilDiv_def) (simp add: breaks_def)
  from 1 2 3 show ?thesis by (simp add: ceilDiv_def)
qed

section \<open>Duplicate keys\<close>

text \<open>
  C6 (as the code has it).  A violation of the unique index on \<open>slug\<close> at the time of
  the write is answered with the general 500 \<^verbatim>\<open>Server error\<close>, by the create route and
  by the update route alike, and the collection is left as it was: nothing is written
  again with another slug.  (The violation is brought about here by a body that names a
  slug another post has; the race of two creations ends in the same error of
  \<^verbatim>\<open>Post.create\<close>.)
\<close>

theorem duplicate_slug_is_server_error:
  "(validatePostCreation b \<noteq> None \<and> b_slug b = Some s \<and> slugSetter s \<noteq> [] \<and>
    Some (slugSetter s) \<in> set (map slug st)
      \<longrightarrow> serve st (CreatePost i now usr b) = Some (ServerError, st)) \<and>
   (lookup st j = Some p \<and> (author p = u_id usr \<or> u_role usr = Admin) \<and>
    b_slug b = Some s \<and> list_ex (\<lambda>q. p_id q \<noteq> p_id p \<and> slug q = Some (slugSetter s)) st
      \<longrightarrow> router_put st j usr b = (ServerError, st))"
proof (intro conjI impI)
  assume a: "validatePostCreation b \<noteq> None \<and> b_slug b = Some s \<and> slugSetter s \<noteq> [] \<and>
    Some (slugSetter s) \<in> set (map slug st)"
  define t where "t = trim (case b_title b of None \<Rightarrow> [] | Some t \<Rightarrow> t)"
  define c where "c = trim (case b_content b of None \<Rightarrow> [] | Some c \<Rightarrow> c)"
  define b' where "b' = b\<lparr>b_title := Some t, b_content := Some c\<rparr>"
  from a have ok: "1 \<le> length t" "length t \<le> 200" "1 \<le> length c"
    and v: "validatePostCreation b = Some b'"
    by (auto simp: validatePostCreation_def Let_def t_def c_def b'_def split: if_splits)
  define pd where "pd = b'\<lparr>b_author := Some (u_id usr)\<rparr>"
  define doc where "doc = newDocument i t c (u_id usr) pd"
  define m where "m = \<lparr>titleModified = True, statusModified = (b_status pd \<noteq> None), contentModified = True\<rparr>"
  have tt: "trim t = t" unfolding t_def by (rule trim_trim)
  have doc_f: "slug doc = Some (slugSetter s)" "title doc = t" "content doc = c"
    using a by (simp_all add: doc_def newDocument_def pd_def b'_def tt)
  have valid: "validTitle (title doc) \<and> validContent (content doc)"
    using ok by (auto simp: doc_f validTitle_def validContent_def)
  define d where "d = setReadingTime m (setPublishedAt m now doc)"
  have ps: "pre_save st m True now doc = Some d"
    using a by (simp add: pre_save_def assignSlug_def noSlug_def doc_f d_def)
  have "slug d = Some (slugSetter s)" by (simp add: d_def doc_f)
  with a have "list_ex (\<lambda>p. p_id p = p_id d \<or> slug p = slug d) st"
    by (auto simp: list_ex_iff)
  then have ins: "insertOne st d = Inl DuplicateKey" by (simp add: insertOne_def)
  have "Post_create st i now pd =
      (case pre_save st m True now doc of None \<Rightarrow> None | Some doc' \<Rightarrow> Some (insertOne st doc'))"
    using valid unfolding doc_def m_def
    by (simp add: Post_create_def pd_def b'_def Let_def)
  with ps ins have "Post_create st i now pd = Some (Inl DuplicateKey)" by simp
  then have "router_post st i now usr b' = Some (ServerError, st)"
    by (simp add: router_post_def pd_def Let_def)
  with v show "serve st (CreatePost i now usr b) = Some (ServerError, st)" by simp
next
  assume a: "lookup st j = Some p \<and> (author p = u_id usr \<or> u_role usr = Admin) \<and>
    b_slug b = Some s \<and> list_ex (\<lambda>q. p_id q \<noteq> p_id p \<and> slug q = Some (slugSetter s)) st"
  have "\<exists>e. Post_findByIdAndUpdate st (p_id p) b = Inl e"
  proof (cases "updateValid (castUpdate b)")
    case False
    then show ?thesis by (simp add: Post_findByIdAndUpdate_def Let_def)
  next
    case True
    have "p \<in> set st" using a by (auto dest: lookup_in_store)
    then obtain q where q: "find (\<lambda>x. p_id x = p_id p) st = Some q"
      by (cases "find (\<lambda>x. p_id x = p_id p) st") (auto simp: find_None_iff)
    have "slug (applyUpdate (castUpdate b) q) = Some (slugSetter s)"
      using a by (simp add: applyUpdate_def castUpdate_def)
    with a True q show ?thesis by (simp add: Post_findByIdAndUpdate_def Let_def)
  qed
  with a show "router_put st j usr b = (ServerError, st)"
    by (auto simp: router_put_def)
qed

theorem duplicate_slug_is_server_error_witness:
  "serve [firstHello] (CreatePost oid2 5 bob ((titled ''Hi'')\<lparr>b_slug := Some ''Hello-World''\<rparr>))
     = Some (ServerError, [firstHello]) \<and>
   router_put [firstHello, firstHello\<lparr>p_id := oid2, slug := Some ''other''\<rparr>] oid2 alice
       (noFields\<lparr>b_slug := Some ''hello-world''\<rparr>)
     = (ServerError, [firstHello, firstHello\<lparr>p_id := oid2, slug := Some ''other''\<rparr>])"
proof -
  let ?st = "[firstHello, firstHello\<lparr>p_id := oid2, slug := Some ''other''\<rparr>]"
  have a: "validatePostCreation ((titled ''Hi'')\<lparr>b_slug := Some ''Hello-World''\<rparr>) \<noteq> None \<and>
      b_slug ((titled ''Hi'')\<lparr>b_slug := Some ''Hello-World''\<rparr>) = Some ''Hello-World'' \<and>
      slugSetter ''Hello-World'' \<noteq> [] \<and>
      Some (slugSetter ''Hello-World'') \<in> set (map slug [firstHello])"
    by code_simp
  have b: "lookup ?st oid2 = Some (firstHello\<lparr>p_id := oid2, slug := Some ''other''\<rparr>) \<and>
      (author (firstHello\<lparr>p_id := oid2, slug := Some ''other''\<rparr>) = u_id alice \<or> u_role alice = Admin) \<and>
      b_slug (noFields\<lparr>b_slug := Some ''hello-world''\<rparr>) = Some ''hello-world'' \<and>
      list_ex (\<lambda>q. p_id q \<noteq> p_id (firstHello\<lparr>p_id := oid2, slug := Some ''other''\<rparr>) \<and>
                    slug q = Some (slugSetter ''hello-world'')) ?st"
    by code_simp
  from a b
    duplicate_slug_is_server_error [of "(titled ''Hi'')\<lparr>b_slug := Some ''Hello-World''\<rparr>"
      "''Hello-World''" "[firstHello]" oid2 5 bob]
    duplicate_slug_is_server_error [of "noFields\<lparr>b_slug := Some ''hello-world''\<rparr>"
      "''hello-world''" ?st _ _ alice oid2 "firstHello\<lparr>p_id := oid2, slug := Some ''other''\<rparr>"]
  show ?thesis by blast
qed

text \<open>The claim as stated fails: the creation of a post with a slug that is taken is
  answered with the general server error and stores nothing, where the same creation
  with the slug left to the hook stores the post as \<^verbatim>\<open>hello-world-1\<close>.\<close>

theorem duplicate_slug_counterexample:
  "serve [firstHello] (CreatePost oid2 5 bob ((titled ''Hello, World!'')\<lparr>b_slug := Some ''hello-world''\<rparr>))
     = Some (ServerError, [firstHello]) \<and>
   map_option (map slug o snd) (serve [firstHello] (CreatePost oid2 5 bob (titled ''Hello, World!'')))
     = Some [Some ''hello-world'', Some ''hello-world-1'']"
  by code_simp

end
